theory Spec2Isabelle
  imports Complex_Main "HOL-Library.Signed_Division"
begin

section \<open>Machine integers and device memory\<close>

text \<open>
  The kernels of \<^verbatim>\<open>utils.cu\<close> compute indices in three C types: \<^verbatim>\<open>int\<close> (32 bits,
  two's complement), \<^verbatim>\<open>unsigned\<close> (32 bits) and \<^verbatim>\<open>size_t\<close> (64 bits). Values are
  mathematical integers here, and every conversion to one of the three types is written
  out as the reduction it performs.
\<close>

definition to_int :: "int \<Rightarrow> int" where
  "to_int x = (x + 2 ^ 31) mod 2 ^ 32 - 2 ^ 31"

definition to_unsigned :: "int \<Rightarrow> int" where
  "to_unsigned x = x mod 2 ^ 32"

definition to_size_t :: "int \<Rightarrow> int" where
  "to_size_t x = x mod 2 ^ 64"

text \<open>
  A buffer in device memory is the list of its elements. An access outside the buffer is
  undefined behaviour in the source; it is the value \<open>None\<close> here, and a kernel that
  performs one has the result \<open>None\<close>.
\<close>

definition rd :: "'a list \<Rightarrow> int \<Rightarrow> 'a option" where
  "rd mem p = (if 0 \<le> p \<and> p < int (length mem) then Some (mem ! nat p) else None)"

definition wr :: "'a list \<Rightarrow> int \<Rightarrow> 'a \<Rightarrow> 'a list option" where
  "wr mem p v = (if 0 \<le> p \<and> p < int (length mem) then Some (mem[nat p := v]) else None)"

text \<open>\<^verbatim>\<open>const int i = blockIdx.x * blockDim.x + threadIdx.x;\<close> The right-hand side
  is \<^verbatim>\<open>unsigned\<close> arithmetic, converted to \<^verbatim>\<open>int\<close>.\<close>

definition thread_index :: "int \<Rightarrow> int \<Rightarrow> int \<Rightarrow> int" where
  "thread_index blockIdx_x blockDim_x threadIdx_x =
     to_int (to_unsigned (to_unsigned (blockIdx_x * blockDim_x) + threadIdx_x))"

text \<open>
  A launch \<^verbatim>\<open>kernel<<<dimGrid, dimBlock>>>\<close> is refused by the CUDA runtime when a
  dimension of the grid or of the block is 0 or above what the device supports: on every
  device of compute capability 3.0 or more a grid has at most \<open>2\<^sup>3\<^sup>1 - 1\<close> blocks in x
  and 65535 in y, and a block has at most 1024 threads, in x, in y and together. A
  refused launch runs no block and leaves the memory as it is. The runtime only records
  the error (\<^verbatim>\<open>cudaGetLastError\<close>); no host function of this file asks for it after a
  launch, so the caller does not see it.
\<close>

definition launch_configuration_ok :: "int \<Rightarrow> int \<Rightarrow> int \<Rightarrow> int \<Rightarrow> bool" where
  "launch_configuration_ok gridDim_x gridDim_y blockDim_x blockDim_y =
     (0 < gridDim_x \<and> gridDim_x \<le> 2147483647 \<and> 0 < gridDim_y \<and> gridDim_y \<le> 65535
      \<and> 0 < blockDim_x \<and> blockDim_x \<le> 1024 \<and> 0 < blockDim_y \<and> blockDim_y \<le> 1024
      \<and> blockDim_x * blockDim_y \<le> 1024)"

text \<open>
  A launch with one-dimensional grid and block that is not refused runs the kernel body
  once for every pair of a block index and a thread index. The bodies run one after the
  other here, block by block; the first undefined access makes the whole launch
  undefined.
\<close>

definition launch_1d ::
  "int \<Rightarrow> int \<Rightarrow> (int \<Rightarrow> int \<Rightarrow> int \<Rightarrow> 'm \<Rightarrow> 'm option) \<Rightarrow> 'm \<Rightarrow> 'm option" where
  "launch_1d gridDim_x blockDim_x body mem =
     (if launch_configuration_ok gridDim_x 1 blockDim_x 1
      then fold (\<lambda>(b, t) m. case m of None \<Rightarrow> None
                                   | Some m' \<Rightarrow> body (int b) blockDim_x (int t) m')
             (List.product [0..<nat gridDim_x] [0..<nat blockDim_x]) (Some mem)
      else Some mem)"

definition NB :: int where "NB = 64"
definition TILE_DIM :: int where "TILE_DIM = 32"
definition BLOCK_ROWS :: int where "BLOCK_ROWS = 8"

text \<open>\<^verbatim>\<open>int ceildiv(int dividend, int divisor)\<close>: C division truncates towards zero.\<close>

definition ceildiv :: "int \<Rightarrow> int \<Rightarrow> int" where
  "ceildiv dividend divisor =
     (let res = dividend sdiv divisor
      in if dividend smod divisor \<noteq> 0 then res + 1 else res)"

section \<open>Tensor handles and host errors\<close>

text \<open>
  The collaborator \<^verbatim>\<open>torch::Tensor\<close> as far as \<^verbatim>\<open>utils.cu\<close> looks at it: the device, the
  element type, sizes and strides of a two-dimensional tensor, and the buffer behind
  \<^verbatim>\<open>data_ptr\<close>. Element \<open>(r, c)\<close> of the matrix is at offset \<open>r * stride0 + c * stride1\<close>.
\<close>

datatype scalar_type = kByte | kChar | kShort | kInt | kLong | kHalf | kFloat | kDouble | kBool

record 'a tensor =
  is_cuda :: bool
  device :: nat
  scalar_type :: scalar_type
  size0 :: nat
  size1 :: nat
  stride0 :: nat
  stride1 :: nat
  data :: "'a list"

text \<open>The one-dimensional tensor \<^verbatim>\<open>v\<close> of \<^verbatim>\<open>cuda_vec_mul_triang\<close>.\<close>

record 'a vector =
  vis_cuda :: bool
  vdevice :: nat
  vscalar_type :: scalar_type
  vsize0 :: nat
  vdata :: "'a list"

definition elem :: "'a tensor \<Rightarrow> nat \<Rightarrow> nat \<Rightarrow> 'a" where
  "elem A r c = data A ! (r * stride0 A + c * stride1 A)"

text \<open>\<^verbatim>\<open>torch::transpose(A, 0, 1)\<close> is a view: sizes and strides are swapped, the buffer
  is shared.\<close>

definition transpose01 :: "'a tensor \<Rightarrow> 'a tensor" where
  "transpose01 A = A\<lparr>size0 := size1 A, size1 := size0 A, stride0 := stride1 A, stride1 := stride0 A\<rparr>"

text \<open>
  Every \<^verbatim>\<open>AT_ERROR\<close> of the file is a constructor, named after its message.
  \<^verbatim>\<open>AT_DISPATCH_FLOATING_TYPES\<close> raises for an element type other than \<^verbatim>\<open>double\<close> and
  \<^verbatim>\<open>float\<close>, and \<^verbatim>\<open>data_ptr<scalar_t>()\<close> raises for a tensor whose element type is not
  \<^verbatim>\<open>scalar_t\<close>. All of these are raised on the host. \<open>KernelUndefined\<close> stands for a
  launched kernel that accesses memory outside a buffer.
\<close>

datatype error =
    InputAMustBeCuda
  | InputVMustBeCuda
  | MustBeOnSameDevice
  | InputMustBeCuda
  | OutputMustBeCuda
  | MustBeOfSameSize
  | NotImplementedFor scalar_type
  | ExpectedScalarType scalar_type scalar_type
  | KernelUndefined

fun raised_before_launch :: "error \<Rightarrow> bool" where
  "raised_before_launch KernelUndefined = False"
| "raised_before_launch _ = True"

definition dispatch_floating_types :: "scalar_type \<Rightarrow> bool" where
  "dispatch_floating_types st = (st = kDouble \<or> st = kFloat)"

section \<open>Scaling a triangle by a vector: the host function\<close>

text \<open>
  The text of \<^verbatim>\<open>vec_mul_triang_kernel_v1\<close> is not CUDA C++ (its statements lack
  terminators and its shared arrays have bounds that are not constants), so the model of
  \<^verbatim>\<open>cuda_vec_mul_triang\<close> ends at the launch: the result is the exception raised on the
  host, or the launch configuration and the stride argument of the kernel.
\<close>

record launch =
  grid_x :: int
  grid_y :: int
  block_x :: int
  block_y :: int
  mat_stride :: int

definition cuda_vec_mul_triang ::
  "'a tensor \<Rightarrow> 'a vector \<Rightarrow> bool \<Rightarrow> int \<Rightarrow> error + launch" where
  "cuda_vec_mul_triang A v upper side =
     (if \<not> is_cuda A then Inl InputAMustBeCuda
      else if \<not> vis_cuda v then Inl InputVMustBeCuda
      else if vdevice v \<noteq> device A then Inl MustBeOnSameDevice
      else
        let block_size = 32;
            nx = int (size0 A);
            grid_height = ceildiv (to_int nx) block_size
        in if \<not> dispatch_floating_types (scalar_type A)
           then Inl (NotImplementedFor (scalar_type A))
           else if vscalar_type v \<noteq> scalar_type A
           then Inl (ExpectedScalarType (scalar_type A) (vscalar_type v))
           else Inr \<lparr>grid_x = to_unsigned (to_int (grid_height * (grid_height + 1)) sdiv 2),
                     grid_y = 1, block_x = to_unsigned block_size,
                     block_y = to_unsigned block_size,
                     mat_stride = to_int (int (stride0 A))\<rparr>)"

section \<open>The triangular scale kernels\<close>

text \<open>
  The four kernels advance the pointer \<^verbatim>\<open>data\<close> through one column of the buffer. The
  pointer is its offset from the start of the buffer. The two loops are
  \<^verbatim>\<open>while (data <= diag_stop) { *data *= mul; data++; }\<close> and the same with \<^verbatim>\<open><\<close>.
\<close>

function mul_while_le :: "'a::times \<Rightarrow> int \<Rightarrow> int \<Rightarrow> 'a list \<Rightarrow> 'a list option" where
  "mul_while_le mul diag_stop p mem =
     (if p \<le> diag_stop
      then (case rd mem p of
              None \<Rightarrow> None
            | Some x \<Rightarrow> (case wr mem p (x * mul) of
                          None \<Rightarrow> None
                        | Some mem' \<Rightarrow> mul_while_le mul diag_stop (p + 1) mem'))
      else Some mem)"
  by pat_completeness auto
termination
  by (relation "measure (\<lambda>(mul, diag_stop, p, mem). nat (diag_stop + 1 - p))") auto

function mul_while_lt :: "'a::times \<Rightarrow> int \<Rightarrow> int \<Rightarrow> 'a list \<Rightarrow> 'a list option" where
  "mul_while_lt mul diag_stop p mem =
     (if p < diag_stop
      then (case rd mem p of
              None \<Rightarrow> None
            | Some x \<Rightarrow> (case wr mem p (x * mul) of
                          None \<Rightarrow> None
                        | Some mem' \<Rightarrow> mul_while_lt mul diag_stop (p + 1) mem'))
      else Some mem)"
  by pat_completeness auto
termination
  by (relation "measure (\<lambda>(mul, diag_stop, p, mem). nat (diag_stop - p))") auto

definition mul_upper_diag ::
  "int \<Rightarrow> 'a::times \<Rightarrow> int \<Rightarrow> int \<Rightarrow> int \<Rightarrow> 'a list \<Rightarrow> 'a list option" where
  "mul_upper_diag sz mul blockIdx_x blockDim_x threadIdx_x mem =
     (let i = thread_index blockIdx_x blockDim_x threadIdx_x
      in if to_size_t i < sz
         then (let data = to_size_t (to_size_t i * sz);
                   diag_stop = data + i
               in mul_while_le mul diag_stop data mem)
         else Some mem)"

definition mul_upper ::
  "int \<Rightarrow> 'a::times \<Rightarrow> int \<Rightarrow> int \<Rightarrow> int \<Rightarrow> 'a list \<Rightarrow> 'a list option" where
  "mul_upper sz mul blockIdx_x blockDim_x threadIdx_x mem =
     (let i = thread_index blockIdx_x blockDim_x threadIdx_x
      in if to_size_t i < sz
         then (let data = to_size_t (to_size_t i * sz);
                   diag_stop = data + i
               in mul_while_lt mul diag_stop data mem)
         else Some mem)"

definition mul_lower_diag ::
  "int \<Rightarrow> 'a::times \<Rightarrow> int \<Rightarrow> int \<Rightarrow> int \<Rightarrow> 'a list \<Rightarrow> 'a list option" where
  "mul_lower_diag sz mul blockIdx_x blockDim_x threadIdx_x mem =
     (let i = thread_index blockIdx_x blockDim_x threadIdx_x
      in if to_size_t i < sz
         then (let data = to_size_t (to_size_t (to_size_t i * sz) + to_size_t i);
                   diag_stop = data + sz - i
               in mul_while_lt mul diag_stop data mem)
         else Some mem)"

definition mul_lower ::
  "int \<Rightarrow> 'a::times \<Rightarrow> int \<Rightarrow> int \<Rightarrow> int \<Rightarrow> 'a list \<Rightarrow> 'a list option" where
  "mul_lower sz mul blockIdx_x blockDim_x threadIdx_x mem =
     (let i = thread_index blockIdx_x blockDim_x threadIdx_x
      in if to_size_t i < sz
         then (let data = to_size_t (to_size_t (to_size_t i * sz) + to_size_t i);
                   diag_stop = data + sz - i
               in mul_while_lt mul diag_stop (data + 1) mem)
         else Some mem)"

text \<open>
  \<^verbatim>\<open>cuda_mul_triang\<close>. The \<^verbatim>\<open>double\<close> multiplier is converted to the element type by
  \<^verbatim>\<open>(scalar_t)multiplier\<close>; the conversion is the parameter \<open>cast\<close>. The result is the
  tensor \<^verbatim>\<open>A\<close> as the caller sees it afterwards, under \<open>Inl\<close> together with the exception
  when one is raised.
\<close>

definition cuda_mul_triang ::
  "('d \<Rightarrow> 'a::times) \<Rightarrow> 'a tensor \<Rightarrow> bool \<Rightarrow> bool \<Rightarrow> 'd \<Rightarrow> (error \<times> 'a tensor) + 'a tensor" where
  "cuda_mul_triang cast A upper preserve_diag multiplier =
     (if \<not> is_cuda A then Inl (InputAMustBeCuda, A)
      else
        let upper = (if stride0 A \<noteq> 1 then \<not> upper else upper);
            nx = int (size0 A);
            dimGrid = to_unsigned (ceildiv (to_int nx) NB);
            dimBlock = to_unsigned NB
        in if \<not> dispatch_floating_types (scalar_type A)
           then Inl (NotImplementedFor (scalar_type A), A)
           else
             let mul = cast multiplier;
                 launched =
                   (if upper \<and> preserve_diag
                    then launch_1d dimGrid dimBlock (mul_upper (to_size_t nx) mul) (data A)
                    else if upper
                    then launch_1d dimGrid dimBlock (mul_upper_diag (to_size_t nx) mul) (data A)
                    else if preserve_diag
                    then launch_1d dimGrid dimBlock (mul_lower (to_size_t nx) mul) (data A)
                    else launch_1d dimGrid dimBlock (mul_lower_diag (to_size_t nx) mul) (data A))
             in case launched of
                  None \<Rightarrow> Inl (KernelUndefined, A)
                | Some mem \<Rightarrow> Inr (A\<lparr>data := mem\<rparr>))"

section \<open>The triangular copy kernels\<close>

text \<open>
  \<^verbatim>\<open>for (int row_pos = i; row_pos < i + i * size; row_pos += size)\<close> with
  \<^verbatim>\<open>data[col_pos] = data[row_pos]; col_pos++;\<close> as body. Both positions are \<^verbatim>\<open>int\<close>; the
  bound and the increment of \<^verbatim>\<open>row_pos\<close> are computed in \<^verbatim>\<open>size_t\<close>. The loop is the least
  fixed point of its unfolding: a run that does not end has the result \<open>None\<close>.
\<close>

partial_function (option) copy_lower_for ::
  "int \<Rightarrow> int \<Rightarrow> int \<Rightarrow> int \<Rightarrow> 'a list \<Rightarrow> 'a list option" where
  "copy_lower_for sz i row_pos col_pos mem =
     (if to_size_t row_pos < to_size_t (to_size_t i + to_size_t (to_size_t i * sz))
      then (case rd mem row_pos of
              None \<Rightarrow> None
            | Some x \<Rightarrow> (case wr mem col_pos x of
                          None \<Rightarrow> None
                        | Some mem' \<Rightarrow>
                            copy_lower_for sz i (to_int (to_size_t (to_size_t row_pos + sz)))
                              (to_int (col_pos + 1)) mem'))
      else Some mem)"

partial_function (option) copy_upper_for ::
  "int \<Rightarrow> int \<Rightarrow> int \<Rightarrow> int \<Rightarrow> 'a list \<Rightarrow> 'a list option" where
  "copy_upper_for sz i row_pos col_pos mem =
     (if to_size_t row_pos < to_size_t (to_size_t i + to_size_t (to_size_t i * sz))
      then (case rd mem col_pos of
              None \<Rightarrow> None
            | Some x \<Rightarrow> (case wr mem row_pos x of
                          None \<Rightarrow> None
                        | Some mem' \<Rightarrow>
                            copy_upper_for sz i (to_int (to_size_t (to_size_t row_pos + sz)))
                              (to_int (col_pos + 1)) mem'))
      else Some mem)"

declare copy_lower_for.simps [code] copy_upper_for.simps [code]

definition copy_simple_kernel_lower ::
  "int \<Rightarrow> int \<Rightarrow> int \<Rightarrow> int \<Rightarrow> 'a list \<Rightarrow> 'a list option" where
  "copy_simple_kernel_lower sz blockIdx_x blockDim_x threadIdx_x mem =
     (let i = thread_index blockIdx_x blockDim_x threadIdx_x
      in if to_size_t i < sz
         then copy_lower_for sz i i (to_int (to_size_t (to_size_t i * sz))) mem
         else Some mem)"

definition copy_simple_kernel_upper ::
  "int \<Rightarrow> int \<Rightarrow> int \<Rightarrow> int \<Rightarrow> 'a list \<Rightarrow> 'a list option" where
  "copy_simple_kernel_upper sz blockIdx_x blockDim_x threadIdx_x mem =
     (let i = thread_index blockIdx_x blockDim_x threadIdx_x
      in if to_size_t i < sz
         then copy_upper_for sz i i (to_int (to_size_t (to_size_t i * sz))) mem
         else Some mem)"

text \<open>
  \<^verbatim>\<open>cuda_copy_triang\<close>. \<^verbatim>\<open>A\<close> is a reference: the assignment
  \<^verbatim>\<open>A = torch::transpose(A, 0, 1)\<close> is seen by the caller, also when the dispatch on the
  element type raises afterwards.
\<close>

definition cuda_copy_triang :: "'a tensor \<Rightarrow> bool \<Rightarrow> (error \<times> 'a tensor) + 'a tensor" where
  "cuda_copy_triang A upper =
     (if \<not> is_cuda A then Inl (InputAMustBeCuda, A)
      else
        let needs_transpose = (stride0 A \<noteq> 1);
            upper = (if needs_transpose then \<not> upper else upper);
            A = (if needs_transpose then transpose01 A else A);
            nx = int (size0 A);
            ny = int (size1 A);
            dimGrid = to_unsigned (ceildiv (to_int nx) NB);
            dimBlock = to_unsigned NB
        in if \<not> dispatch_floating_types (scalar_type A)
           then Inl (NotImplementedFor (scalar_type A), A)
           else
             let launched =
                   (if upper
                    then launch_1d dimGrid dimBlock (copy_simple_kernel_upper (to_size_t nx)) (data A)
                    else launch_1d dimGrid dimBlock (copy_simple_kernel_lower (to_size_t nx)) (data A))
             in case launched of
                  None \<Rightarrow> Inl (KernelUndefined, A)
                | Some mem \<Rightarrow>
                    let A = A\<lparr>data := mem\<rparr>
                    in Inr (if needs_transpose then transpose01 A else A))"

section \<open>The tiled transpose kernels\<close>

text \<open>
  \<^verbatim>\<open>__shared__ scalar_t shrdMem[TILE_DIM][TILE_DIM+1]\<close> is a function of the two
  indices; an index outside the declared bounds is undefined. The contents of shared
  memory when a block starts are not determined by the program: they are a parameter.
\<close>

type_synonym 'a shared = "int \<times> int \<Rightarrow> 'a"

definition sh_rd :: "'a shared \<Rightarrow> int \<Rightarrow> int \<Rightarrow> 'a option" where
  "sh_rd sh a b =
     (if 0 \<le> a \<and> a < TILE_DIM \<and> 0 \<le> b \<and> b < TILE_DIM + 1 then Some (sh (a, b)) else None)"

definition sh_wr :: "'a shared \<Rightarrow> int \<Rightarrow> int \<Rightarrow> 'a \<Rightarrow> 'a shared option" where
  "sh_wr sh a b v =
     (if 0 \<le> a \<and> a < TILE_DIM \<and> 0 \<le> b \<and> b < TILE_DIM + 1 then Some (sh((a, b) := v))
      else None)"

text \<open>
  \<^verbatim>\<open>for (unsigned repeat = 0; repeat < TILE_DIM; repeat += step)\<close>, where \<^verbatim>\<open>step\<close> is
  \<^verbatim>\<open>blockDim.y\<close> or \<^verbatim>\<open>blockDim.x\<close>, around a body that may be undefined. With a step of 0
  the loop does not end.
\<close>

partial_function (option) for_repeat ::
  "int \<Rightarrow> (int \<Rightarrow> 's \<Rightarrow> 's option) \<Rightarrow> int \<Rightarrow> 's \<Rightarrow> 's option" where
  "for_repeat step body repeat s =
     (if repeat < TILE_DIM
      then (case body repeat s of
              None \<Rightarrow> None
            | Some s' \<Rightarrow> for_repeat step body (to_unsigned (repeat + step)) s')
      else Some s)"

declare for_repeat.simps [code]

text \<open>The threads of one block, run one after the other on a state.\<close>

definition block_threads ::
  "int \<Rightarrow> int \<Rightarrow> (int \<Rightarrow> int \<Rightarrow> 's \<Rightarrow> 's option) \<Rightarrow> 's \<Rightarrow> 's option" where
  "block_threads blockDim_x blockDim_y body s =
     fold (\<lambda>(ly, lx) m. case m of None \<Rightarrow> None | Some m' \<Rightarrow> body (int lx) (int ly) m')
          (List.product [0..<nat blockDim_y] [0..<nat blockDim_x]) (Some s)"

text \<open>
  The blocks of a two-dimensional grid, run one after the other, when the launch is not
  refused; a refused launch runs none of them.
\<close>

definition launch_2d ::
  "int \<Rightarrow> int \<Rightarrow> int \<Rightarrow> int \<Rightarrow> (int \<Rightarrow> int \<Rightarrow> int \<Rightarrow> int \<Rightarrow> 'm \<Rightarrow> 'm option) \<Rightarrow> 'm \<Rightarrow> 'm option" where
  "launch_2d gridDim_x gridDim_y blockDim_x blockDim_y body mem =
     (if launch_configuration_ok gridDim_x gridDim_y blockDim_x blockDim_y
      then fold (\<lambda>(by, bx) m. case m of None \<Rightarrow> None
                                    | Some m' \<Rightarrow> body (int bx) (int by) blockDim_x blockDim_y m')
             (List.product [0..<nat gridDim_y] [0..<nat gridDim_x]) (Some mem)
      else Some mem)"

text \<open>
  \<^verbatim>\<open>matrix_transpose_f\<close>: the part of a thread before \<^verbatim>\<open>__syncthreads()\<close> fills the tile
  from \<^verbatim>\<open>in\<close>, the part after it writes \<^verbatim>\<open>out\<close> from the tile. All threads of a block
  have passed the barrier before any of them continues, so a block is the first part of
  all its threads followed by the second part of all its threads.
\<close>

definition matrix_transpose_f_load ::
  "'a list \<Rightarrow> int \<Rightarrow> int \<Rightarrow> int \<Rightarrow> int \<Rightarrow> int \<Rightarrow> int \<Rightarrow> int \<Rightarrow> int \<Rightarrow> 'a shared \<Rightarrow> 'a shared option" where
  "matrix_transpose_f_load inp dim0 dim1 blockIdx_x blockIdx_y blockDim_x blockDim_y lx ly shrdMem =
     (let gx = to_unsigned (lx + to_unsigned (TILE_DIM * blockIdx_x));
          gy = to_unsigned (ly + to_unsigned (TILE_DIM * blockIdx_y))
      in for_repeat blockDim_y
           (\<lambda>repeat shrdMem.
              let gy' = to_unsigned (gy + repeat)
              in if gx < dim0 \<and> gy' < dim1
                 then (case rd inp (to_unsigned (to_unsigned (gy' * dim0) + gx)) of
                         None \<Rightarrow> None
                       | Some x \<Rightarrow> sh_wr shrdMem (to_unsigned (ly + repeat)) lx x)
                 else Some shrdMem)
           0 shrdMem)"

definition matrix_transpose_f_store ::
  "'a shared \<Rightarrow> int \<Rightarrow> int \<Rightarrow> int \<Rightarrow> int \<Rightarrow> int \<Rightarrow> int \<Rightarrow> int \<Rightarrow> int \<Rightarrow> 'a list \<Rightarrow> 'a list option" where
  "matrix_transpose_f_store shrdMem dim0 dim1 blockIdx_x blockIdx_y blockDim_x blockDim_y lx ly out =
     (let gx = to_unsigned (lx + to_unsigned (TILE_DIM * blockIdx_y));
          gy = to_unsigned (ly + to_unsigned (TILE_DIM * blockIdx_x))
      in for_repeat blockDim_y
           (\<lambda>repeat out.
              let gy' = to_unsigned (gy + repeat)
              in if gx < dim1 \<and> gy' < dim0
                 then (case sh_rd shrdMem lx (to_unsigned (ly + repeat)) of
                         None \<Rightarrow> None
                       | Some x \<Rightarrow> wr out (to_unsigned (to_unsigned (gy' * dim1) + gx)) x)
                 else Some out)
           0 out)"

definition matrix_transpose_f ::
  "'a shared \<Rightarrow> 'a list \<Rightarrow> int \<Rightarrow> int \<Rightarrow> int \<Rightarrow> int \<Rightarrow> int \<Rightarrow> int \<Rightarrow> 'a list \<Rightarrow> 'a list option" where
  "matrix_transpose_f uninit inp dim0 dim1 blockIdx_x blockIdx_y blockDim_x blockDim_y out =
     (case block_threads blockDim_x blockDim_y
             (matrix_transpose_f_load inp dim0 dim1 blockIdx_x blockIdx_y blockDim_x blockDim_y)
             uninit of
        None \<Rightarrow> None
      | Some shrdMem \<Rightarrow>
          block_threads blockDim_x blockDim_y
            (matrix_transpose_f_store shrdMem dim0 dim1 blockIdx_x blockIdx_y blockDim_x blockDim_y)
            out)"

text \<open>\<^verbatim>\<open>matrix_transpose_c\<close>: the same for rows that are contiguous.\<close>

definition matrix_transpose_c_load ::
  "'a list \<Rightarrow> int \<Rightarrow> int \<Rightarrow> int \<Rightarrow> int \<Rightarrow> int \<Rightarrow> int \<Rightarrow> int \<Rightarrow> int \<Rightarrow> 'a shared \<Rightarrow> 'a shared option" where
  "matrix_transpose_c_load inp dim0 dim1 blockIdx_x blockIdx_y blockDim_x blockDim_y lx ly shrdMem =
     (let gx = to_unsigned (lx + to_unsigned (TILE_DIM * blockIdx_x));
          gy = to_unsigned (ly + to_unsigned (TILE_DIM * blockIdx_y))
      in for_repeat blockDim_x
           (\<lambda>repeat shrdMem.
              let gx' = to_unsigned (gx + repeat)
              in if gx' < dim0 \<and> gy < dim1
                 then (case rd inp (to_unsigned (to_unsigned (gx' * dim1) + gy)) of
                         None \<Rightarrow> None
                       | Some x \<Rightarrow> sh_wr shrdMem (to_unsigned (lx + repeat)) ly x)
                 else Some shrdMem)
           0 shrdMem)"

definition matrix_transpose_c_store ::
  "'a shared \<Rightarrow> int \<Rightarrow> int \<Rightarrow> int \<Rightarrow> int \<Rightarrow> int \<Rightarrow> int \<Rightarrow> int \<Rightarrow> int \<Rightarrow> 'a list \<Rightarrow> 'a list option" where
  "matrix_transpose_c_store shrdMem dim0 dim1 blockIdx_x blockIdx_y blockDim_x blockDim_y lx ly out =
     (let gx = to_unsigned (lx + to_unsigned (TILE_DIM * blockIdx_y));
          gy = to_unsigned (ly + to_unsigned (TILE_DIM * blockIdx_x))
      in for_repeat blockDim_x
           (\<lambda>repeat out.
              let gx' = to_unsigned (gx + repeat)
              in if gx' < dim1 \<and> gy < dim0
                 then (case sh_rd shrdMem ly (to_unsigned (lx + repeat)) of
                         None \<Rightarrow> None
                       | Some x \<Rightarrow> wr out (to_unsigned (to_unsigned (gx' * dim0) + gy)) x)
                 else Some out)
           0 out)"

definition matrix_transpose_c ::
  "'a shared \<Rightarrow> 'a list \<Rightarrow> int \<Rightarrow> int \<Rightarrow> int \<Rightarrow> int \<Rightarrow> int \<Rightarrow> int \<Rightarrow> 'a list \<Rightarrow> 'a list option" where
  "matrix_transpose_c uninit inp dim0 dim1 blockIdx_x blockIdx_y blockDim_x blockDim_y out =
     (case block_threads blockDim_x blockDim_y
             (matrix_transpose_c_load inp dim0 dim1 blockIdx_x blockIdx_y blockDim_x blockDim_y)
             uninit of
        None \<Rightarrow> None
      | Some shrdMem \<Rightarrow>
          block_threads blockDim_x blockDim_y
            (matrix_transpose_c_store shrdMem dim0 dim1 blockIdx_x blockIdx_y blockDim_x blockDim_y)
            out)"

text \<open>
  \<^verbatim>\<open>cuda_transpose\<close>. The result is the tensor \<^verbatim>\<open>output\<close> afterwards. The kernels read the
  buffer of \<^verbatim>\<open>input\<close> and write the buffer of \<^verbatim>\<open>output\<close>, which are two buffers here.
\<close>

definition cuda_transpose ::
  "'a shared \<Rightarrow> 'a tensor \<Rightarrow> 'a tensor \<Rightarrow> (error \<times> 'a tensor) + 'a tensor" where
  "cuda_transpose uninit input output =
     (if \<not> is_cuda input then Inl (InputMustBeCuda, output)
      else if \<not> is_cuda output then Inl (OutputMustBeCuda, output)
      else if size0 input \<noteq> size1 output \<or> size1 input \<noteq> size0 output
      then Inl (MustBeOfSameSize, output)
      else
        let nx = int (size0 input);
            ny = int (size1 input);
            fortran_contig = (stride0 input = 1);
            dimGrid_x = to_unsigned (ceildiv (to_int nx) TILE_DIM);
            dimGrid_y = to_unsigned (ceildiv (to_int ny) TILE_DIM)
        in if \<not> dispatch_floating_types (scalar_type input)
           then Inl (NotImplementedFor (scalar_type input), output)
           else if scalar_type output \<noteq> scalar_type input
           then Inl (ExpectedScalarType (scalar_type input) (scalar_type output), output)
           else
             let launched =
                   (if fortran_contig
                    then launch_2d dimGrid_x dimGrid_y (to_unsigned TILE_DIM) (to_unsigned BLOCK_ROWS)
                           (matrix_transpose_f uninit (data input) (to_unsigned nx) (to_unsigned ny))
                           (data output)
                    else launch_2d dimGrid_x dimGrid_y (to_unsigned BLOCK_ROWS) (to_unsigned TILE_DIM)
                           (matrix_transpose_c uninit (data input) (to_unsigned nx) (to_unsigned ny))
                           (data output))
             in case launched of
                  None \<Rightarrow> Inl (KernelUndefined, output)
                | Some mem \<Rightarrow> Inr (output\<lparr>data := mem\<rparr>))"

section \<open>The index mapper\<close>

text \<open>
  \<^verbatim>\<open>(int)((-1 + sqrt((double)(8*linear_index + 1))) / 2.0)\<close>. The product and the sum
  are \<^verbatim>\<open>int\<close> arithmetic. The square root, the sum and the quotient on \<^verbatim>\<open>double\<close> are
  those of the real numbers here: rounding is not modelled. The square root of a
  negative number is not a number, and its conversion to \<^verbatim>\<open>int\<close> is undefined: \<open>None\<close>.
  The conversion of a \<^verbatim>\<open>double\<close> to \<^verbatim>\<open>int\<close> truncates towards zero.
\<close>

definition double_to_int :: "real \<Rightarrow> int" where
  "double_to_int x = to_int (if 0 \<le> x then \<lfloor>x\<rfloor> else \<lceil>x\<rceil>)"

definition tri_index_row :: "int \<Rightarrow> int option" where
  "tri_index_row linear_index =
     (let arg = to_int (to_int (8 * linear_index) + 1)
      in if arg < 0 then None
         else Some (double_to_int ((- 1 + sqrt (real_of_int arg)) / 2)))"

definition tri_index_lower :: "int \<Rightarrow> (int \<times> int) option" where
  "tri_index_lower linear_index =
     (case tri_index_row linear_index of
        None \<Rightarrow> None
      | Some row \<Rightarrow>
          Some (to_int (linear_index - to_int (row * to_int (row + 1)) sdiv 2), row))"

definition tri_index_upper :: "int \<Rightarrow> (int \<times> int) option" where
  "tri_index_upper linear_index =
     (case tri_index_row linear_index of
        None \<Rightarrow> None
      | Some row \<Rightarrow>
          Some (row, to_int (linear_index - to_int (row * to_int (row + 1)) sdiv 2)))"

section \<open>Specification vocabulary\<close>

definition scale_range :: "'a::times \<Rightarrow> int \<Rightarrow> int \<Rightarrow> 'a list \<Rightarrow> 'a list" where
  "scale_range mul lo hi mem =
     map (\<lambda>q. if lo \<le> int q \<and> int q < hi then mem ! q * mul else mem ! q) [0..<length mem]"

definition run_threads :: "(nat \<Rightarrow> 'm \<Rightarrow> 'm option) \<Rightarrow> nat \<Rightarrow> 'm \<Rightarrow> 'm option" where
  "run_threads f n mem =
     fold (\<lambda>i m. case m of None \<Rightarrow> None | Some m' \<Rightarrow> f i m') [0..<n] (Some mem)"

definition in_triangle :: "bool \<Rightarrow> bool \<Rightarrow> nat \<Rightarrow> nat \<Rightarrow> bool" where
  "in_triangle upper preserve_diag r c =
     (if upper then (if preserve_diag then r < c else r \<le> c)
      else (if preserve_diag then c < r else c \<le> r))"

definition square_matrix :: "'a tensor \<Rightarrow> nat \<Rightarrow> bool" where
  "square_matrix A n =
     (size0 A = n \<and> size1 A = n \<and> length (data A) = n * n \<and>
      (stride0 A = 1 \<and> stride1 A = n \<or> stride0 A = n \<and> stride1 A = 1))"

text \<open>Concrete inputs for the scenarios of the specification.\<close>

definition ones_3x3 :: "real tensor" where
  "ones_3x3 = \<lparr>is_cuda = True, device = 0, scalar_type = kDouble, size0 = 3, size1 = 3,
               stride0 = 3, stride1 = 1, data = [1, 1, 1, 1, 1, 1, 1, 1, 1]\<rparr>"

definition matrix_2x3 :: "real tensor" where
  "matrix_2x3 = \<lparr>is_cuda = True, device = 0, scalar_type = kDouble, size0 = 2, size1 = 3,
                 stride0 = 3, stride1 = 1, data = [1, 2, 3, 4, 5, 6]\<rparr>"

definition zeros_3x2 :: "real tensor" where
  "zeros_3x2 = \<lparr>is_cuda = True, device = 0, scalar_type = kDouble, size0 = 3, size1 = 2,
                stride0 = 2, stride1 = 1, data = [0, 0, 0, 0, 0, 0]\<rparr>"

definition vector_1 :: "real vector" where
  "vector_1 = \<lparr>vis_cuda = True, vdevice = 0, vscalar_type = kDouble, vsize0 = 1,
               vdata = [7]\<rparr>"

definition matrix_2x2 :: "real tensor" where
  "matrix_2x2 = \<lparr>is_cuda = True, device = 0, scalar_type = kDouble, size0 = 2, size1 = 2,
                 stride0 = 1, stride1 = 2, data = [1, 2, 3, 4]\<rparr>"

text \<open>A square matrix of dimension 46341, stored by columns: it has more than \<open>2\<^sup>3\<^sup>1\<close>
  elements.\<close>

definition zeros_46341 :: "real tensor" where
  "zeros_46341 = \<lparr>is_cuda = True, device = 0, scalar_type = kFloat, size0 = 46341,
                  size1 = 46341, stride0 = 1, stride1 = 46341,
                  data = replicate (46341 * 46341) 0\<rparr>"

text \<open>A list of steps, each of which may be undefined, run one after the other.\<close>

definition run_steps :: "('x \<Rightarrow> 's \<Rightarrow> 's option) \<Rightarrow> 'x list \<Rightarrow> 's option \<Rightarrow> 's option" where
  "run_steps W xs m0 = fold (\<lambda>x m. case m of None \<Rightarrow> None | Some s \<Rightarrow> W x s) xs m0"















text \<open>A matrix with three rows and two columns, stored by columns.\<close>

definition matrix_3x2 :: "real tensor" where
  "matrix_3x2 = \<lparr>is_cuda = True, device = 0, scalar_type = kDouble, size0 = 3, size1 = 2,
                 stride0 = 1, stride1 = 3, data = [1, 2, 3, 4, 5, 6]\<rparr>"

lemma length_scale_range [simp]: "length (scale_range mul lo hi mem) = length mem"
  by (simp add: scale_range_def)

lemma nth_scale_range:
  "q < length mem \<Longrightarrow> scale_range mul lo hi mem ! q =
     (if lo \<le> int q \<and> int q < hi then mem ! q * mul else mem ! q)"
  by (simp add: scale_range_def)

lemma scale_range_empty: "hi \<le> lo \<Longrightarrow> scale_range mul lo hi mem = mem"
  by (rule nth_equalityI) (auto simp: nth_scale_range)

lemma scale_range_step:
  assumes "0 \<le> p" "p < int (length mem)" "p < hi"
  shows "scale_range mul (p + 1) hi (mem[nat p := mem ! nat p * mul]) = scale_range mul p hi mem"
proof (rule nth_equalityI)
  fix q assume "q < length (scale_range mul (p + 1) hi (mem[nat p := mem ! nat p * mul]))"
  then have q: "q < length mem" by simp
  show "scale_range mul (p + 1) hi (mem[nat p := mem ! nat p * mul]) ! q = scale_range mul p hi mem ! q"
    using assms q by (cases "q = nat p") (auto simp: nth_scale_range)
qed simp

lemma mul_while_lt_eq:
  "0 \<le> p \<Longrightarrow> diag_stop \<le> int (length mem) \<Longrightarrow>
   mul_while_lt mul diag_stop p mem = Some (scale_range mul p diag_stop mem)"
proof (induction mul diag_stop p mem rule: mul_while_lt.induct)
  case (1 mul diag_stop p mem)
  show ?case
  proof (cases "p < diag_stop")
    case False
    then show ?thesis by (simp add: scale_range_empty)
  next
    case True
    with "1.prems" have inb: "0 \<le> p" "p < int (length mem)" by auto
    let ?mem' = "mem[nat p := mem ! nat p * mul]"
    have r: "rd mem p = Some (mem ! nat p)" using inb by (simp add: rd_def)
    have w: "wr mem p (mem ! nat p * mul) = Some ?mem'" using inb by (simp add: wr_def)
    have "mul_while_lt mul diag_stop (p + 1) ?mem' = Some (scale_range mul (p + 1) diag_stop ?mem')"
      using "1.IH" [OF True r w] "1.prems" by simp
    then show ?thesis
      using True r w scale_range_step [OF inb True] by simp
  qed
qed

lemma mul_while_le_eq:
  "0 \<le> p \<Longrightarrow> diag_stop < int (length mem) \<Longrightarrow>
   mul_while_le mul diag_stop p mem = Some (scale_range mul p (diag_stop + 1) mem)"
proof (induction mul diag_stop p mem rule: mul_while_le.induct)
  case (1 mul diag_stop p mem)
  show ?case
  proof (cases "p \<le> diag_stop")
    case False
    then show ?thesis by (simp add: scale_range_empty)
  next
    case True
    with "1.prems" have inb: "0 \<le> p" "p < int (length mem)" by auto
    let ?mem' = "mem[nat p := mem ! nat p * mul]"
    have r: "rd mem p = Some (mem ! nat p)" using inb by (simp add: rd_def)
    have w: "wr mem p (mem ! nat p * mul) = Some ?mem'" using inb by (simp add: wr_def)
    have lt: "p < diag_stop + 1" using True by simp
    have "mul_while_le mul diag_stop (p + 1) ?mem' = Some (scale_range mul (p + 1) (diag_stop + 1) ?mem')"
      using "1.IH" [OF True r w] "1.prems" by simp
    then show ?thesis
      using True r w scale_range_step [OF inb lt] by simp
  qed
qed

lemma run_threads_0 [simp]: "run_threads f 0 mem = Some mem"
  by (simp add: run_threads_def)

lemma run_threads_Suc:
  "run_threads f (Suc n) mem = (case run_threads f n mem of None \<Rightarrow> None | Some m \<Rightarrow> f n m)"
  by (simp add: run_threads_def)

lemma product_snoc: "List.product (xs @ [x]) ys = List.product xs ys @ map (Pair x) ys"
  by (induction xs) auto

lemma fold_block:
  assumes "\<And>t. t < k \<Longrightarrow> body (int b) bdim (int t) = f (off + t)"
  shows "fold (\<lambda>(b, t) m. case m of None \<Rightarrow> None | Some m' \<Rightarrow> body (int b) bdim (int t) m')
              (map (Pair b) [0..<k]) s
         = fold (\<lambda>i m. case m of None \<Rightarrow> None | Some m' \<Rightarrow> f i m') [off..<off + k] s"
  using assms
proof (induction k)
  case 0
  then show ?case by simp
next
  case (Suc k)
  then show ?case by simp
qed

lemma grid_1d_linear:
  assumes "\<And>b t. b < g \<Longrightarrow> t < bd \<Longrightarrow> body (int b) (int bd) (int t) = f (b * bd + t)"
  shows "fold (\<lambda>(b, t) m. case m of None \<Rightarrow> None | Some m' \<Rightarrow> body (int b) (int bd) (int t) m')
              (List.product [0..<g] [0..<bd]) (Some mem)
         = run_threads f (g * bd) mem"
  using assms
proof (induction g)
  case 0
  then show ?case by simp
next
  case (Suc g)
  have ih: "fold (\<lambda>(b, t) m. case m of None \<Rightarrow> None | Some m' \<Rightarrow> body (int b) (int bd) (int t) m')
              (List.product [0..<g] [0..<bd]) (Some mem)
         = run_threads f (g * bd) mem"
    using Suc by simp
  have blk: "fold (\<lambda>(b, t) m. case m of None \<Rightarrow> None | Some m' \<Rightarrow> body (int b) (int bd) (int t) m')
              (map (Pair g) [0..<bd]) s
         = fold (\<lambda>i m. case m of None \<Rightarrow> None | Some m' \<Rightarrow> f i m') [g * bd..<g * bd + bd] s" for s
    by (rule fold_block) (use Suc.prems in simp)
  have split: "[0..<Suc g * bd] = [0..<g * bd] @ [g * bd..<g * bd + bd]"
    using upt_add_eq_append [of 0 "g * bd" bd] by (simp add: add.commute)
  show ?case
    using ih unfolding run_threads_def split
    by (simp add: product_snoc blk)
qed

text \<open>A launch within the limits of the device is its threads in the order of their
  indices; with an empty grid there is no thread, whether the launch is refused or not.\<close>

lemma launch_1d_linear:
  assumes lin: "\<And>b t. b < g \<Longrightarrow> t < bd \<Longrightarrow> body (int b) (int bd) (int t) = f (b * bd + t)"
    and g: "g \<le> 2147483647" and bd: "bd \<le> 1024"
  shows "launch_1d (int g) (int bd) body mem = run_threads f (g * bd) mem"
proof (cases "0 < g \<and> 0 < bd")
  case True
  then have "launch_configuration_ok (int g) 1 (int bd) 1"
    using g bd by (simp add: launch_configuration_ok_def)
  then show ?thesis
    using grid_1d_linear [of g bd body f mem, OF lin] by (simp add: launch_1d_def)
next
  case False
  then have z: "g * bd = 0" by auto
  have "launch_1d (int g) (int bd) body mem = Some mem"
    using False by (auto simp: launch_1d_def launch_configuration_ok_def)
  then show ?thesis unfolding z by simp
qed

lemma to_int_id: "- (2 ^ 31) \<le> x \<Longrightarrow> x < 2 ^ 31 \<Longrightarrow> to_int x = x"
  by (simp add: to_int_def)

lemma to_unsigned_id: "0 \<le> x \<Longrightarrow> x < 2 ^ 32 \<Longrightarrow> to_unsigned x = x"
  by (simp add: to_unsigned_def)

lemma to_size_t_id: "0 \<le> x \<Longrightarrow> x < 2 ^ 64 \<Longrightarrow> to_size_t x = x"
  by (simp add: to_size_t_def)

lemma sdiv_nonneg: "0 \<le> a \<Longrightarrow> 0 < b \<Longrightarrow> a sdiv b = a div (b :: int)"
  by (simp add: signed_divide_int_def sgn_if)

lemma ceildiv_nonneg:
  "0 \<le> a \<Longrightarrow> 0 < b \<Longrightarrow> ceildiv a b = (if a mod b \<noteq> 0 then a div b + 1 else a div b)"
  by (simp add: ceildiv_def Let_def signed_divide_int_def signed_modulo_int_def sgn_if)

lemma thread_index_linear:
  "thread_index b bd t = to_int (to_unsigned (b * bd + t))"
  by (simp add: thread_index_def to_unsigned_def mod_add_left_eq)

lemma int_lt_pow: "k < 2 ^ m \<Longrightarrow> int k < 2 ^ m"
  by (metis of_nat_less_iff of_nat_numeral of_nat_power)

lemma to_unsigned_nat: "k < 2 ^ 32 \<Longrightarrow> to_unsigned (int k) = int k"
  using int_lt_pow [of k 32] by (simp add: to_unsigned_id)

lemma to_int_nat: "k < 2 ^ 31 \<Longrightarrow> to_int (int k) = int k"
  using int_lt_pow [of k 31] by (simp add: to_int_id)

lemma to_size_t_nat: "k < 2 ^ 64 \<Longrightarrow> to_size_t (int k) = int k"
  using int_lt_pow [of k 64] by (simp add: to_size_t_id)

lemma thread_index_nat:
  assumes a: "b * bd + t < 2 ^ 31"
  shows "thread_index (int b) (int bd) (int t) = int (b * bd + t)"
proof -
  have "thread_index (int b) (int bd) (int t) = to_int (to_unsigned (int (b * bd + t)))"
    by (simp add: thread_index_linear)
  also have "to_unsigned (int (b * bd + t)) = int (b * bd + t)"
    using a by (intro to_unsigned_nat) simp
  also have "to_int (int (b * bd + t)) = int (b * bd + t)"
    using a by (intro to_int_nat)
  finally show ?thesis .
qed

lemma nat_mult_bound:
  fixes i n :: nat
  assumes "i < n" "n < 2 ^ 31"
  shows "int i * int n < 2 ^ 62"
proof -
  have "i * n < 2 ^ 31 * 2 ^ 31"
    using assms by (intro mult_strict_mono) auto
  then have "int (i * n) < int (2 ^ 31 * 2 ^ 31)" by (simp only: of_nat_less_iff)
  then show ?thesis by simp
qed

lemma ceildiv_bounds:
  fixes x d :: int
  assumes "0 \<le> x" "0 < d"
  shows "0 \<le> ceildiv x d" "x \<le> ceildiv x d * d" "ceildiv x d * d < x + d"
proof -
  define q where "q = x div d"
  define r where "r = x mod d"
  have x: "x = q * d + r" by (simp add: q_def r_def)
  have r: "0 \<le> r" "r < d" using assms by (simp_all add: r_def)
  have q: "0 \<le> q" using assms by (simp add: q_def pos_imp_zdiv_nonneg_iff)
  have c: "ceildiv x d = (if r \<noteq> 0 then q + 1 else q)"
    using assms by (simp add: ceildiv_nonneg q_def r_def)
  show "0 \<le> ceildiv x d" using c q by simp
  show "x \<le> ceildiv x d * d" using c x r by (simp add: algebra_simps)
  show "ceildiv x d * d < x + d" using c x r by (auto simp: algebra_simps)
qed

lemma grid_64:
  fixes n :: nat
  assumes "n < 2 ^ 31"
  shows "\<exists>g. ceildiv (int n) 64 = int g \<and> n \<le> g * 64 \<and> g * 64 \<le> 2 ^ 31"
proof -
  have lt: "int n < 2 ^ 31" using assms by (rule int_lt_pow)
  define c where "c = ceildiv (int n) 64"
  have b: "0 \<le> c" "int n \<le> c * 64" "c * 64 < int n + 64"
    using ceildiv_bounds [of "int n" 64] by (simp_all add: c_def)
  have d: "64 dvd c * 64" by simp
  have lt': "int n < 2147483648" using lt by simp
  have "c \<le> 33554432" using b(3) lt' by linarith
  then have "c * 64 \<le> 2147483648" by linarith
  then have "nat c * 64 \<le> 2147483648" "n \<le> nat c * 64" using b by auto
  then show ?thesis using b(1) unfolding c_def [symmetric] by (intro exI [of _ "nat c"]) simp
qed

lemma col_range:
  fixes r c T n :: nat
  assumes "r < n" "0 \<le> a" "b \<le> int n"
  shows "(int T * int n + a \<le> int (r + c * n) \<and> int (r + c * n) < int T * int n + b)
         = (c = T \<and> a \<le> int r \<and> int r < b)"
proof (cases "c < T")
  case True
  then have "Suc c * n \<le> T * n" by (intro mult_le_mono1) simp
  then have "r + c * n < T * n" using assms(1) by simp
  then have "int (r + c * n) < int (T * n)" by (simp only: of_nat_less_iff)
  then show ?thesis using True assms by simp
next
  case False
  show ?thesis
  proof (cases "c = T")
    case True
    then show ?thesis by auto
  next
    case ne: False
    with False have "Suc T \<le> c" by simp
    then have "Suc T * n \<le> c * n" by (intro mult_le_mono1)
    then have "T * n + n \<le> r + c * n" by simp
    then have "int (T * n + n) \<le> int (r + c * n)" by (simp only: of_nat_le_iff)
    then show ?thesis using ne assms by simp
  qed
qed

lemma run_threads_columns:
  assumes f: "\<And>i m. i < T \<Longrightarrow> length m = n * n \<Longrightarrow>
                f i m = Some (if i < n then scale_range mul (int i * int n + a i) (int i * int n + b i) m
                              else m)"
    and ab: "\<And>i. i < n \<Longrightarrow> 0 \<le> a i \<and> b i \<le> int n"
    and len: "length mem = n * n"
  shows "\<exists>mem'. run_threads f T mem = Some mem' \<and> length mem' = n * n \<and>
           (\<forall>r<n. \<forall>c<n. mem' ! (r + c * n) =
              (if c < T \<and> a c \<le> int r \<and> int r < b c then mem ! (r + c * n) * mul
               else mem ! (r + c * n)))"
  using f
proof (induction T)
  case 0
  then show ?case using len by simp
next
  case (Suc T)
  then obtain m where m: "run_threads f T mem = Some m" "length m = n * n"
    and mv: "\<And>r c. r < n \<Longrightarrow> c < n \<Longrightarrow> m ! (r + c * n) =
              (if c < T \<and> a c \<le> int r \<and> int r < b c then mem ! (r + c * n) * mul
               else mem ! (r + c * n))"
    by force
  have fT: "f T m = Some (if T < n then scale_range mul (int T * int n + a T) (int T * int n + b T) m
                              else m)"
    using Suc.prems [of T m] m(2) by simp
  show ?case
  proof (cases "T < n")
    case False
    then show ?thesis using m mv fT by (auto simp: run_threads_Suc)
  next
    case True
    let ?m' = "scale_range mul (int T * int n + a T) (int T * int n + b T) m"
    have run: "run_threads f (Suc T) mem = Some ?m'"
      using m fT True by (simp add: run_threads_Suc)
    have "?m' ! (r + c * n) =
              (if c < Suc T \<and> a c \<le> int r \<and> int r < b c then mem ! (r + c * n) * mul
               else mem ! (r + c * n))" if rc: "r < n" "c < n" for r c
    proof -
      have "Suc c * n \<le> n * n" using rc by (intro mult_le_mono1) simp
      then have inb: "r + c * n < length m" using rc m(2) by simp
      have cr: "(int T * int n + a T \<le> int (r + c * n) \<and> int (r + c * n) < int T * int n + b T)
             = (c = T \<and> a T \<le> int r \<and> int r < b T)"
        using ab [OF True] rc by (intro col_range) auto
      show ?thesis
        unfolding nth_scale_range [OF inb] cr mv [OF rc]
        by (auto simp: less_Suc_eq)
    qed
    then show ?thesis using run m(2) by simp
  qed
qed

lemma col_in_bounds:
  fixes i n :: nat
  assumes "i < n"
  shows "int i * int n + int n \<le> int (n * n)"
proof -
  have "Suc i * n \<le> n * n" using assms by (intro mult_le_mono1) simp
  then have "int (Suc i * n) \<le> int (n * n)" by (simp only: of_nat_le_iff)
  then show ?thesis by (simp add: algebra_simps)
qed

lemma launch_columns:
  assumes n: "n < 2 ^ 31" and len: "length mem = n * n"
    and lin: "\<And>b bd t. K (int b) (int bd) (int t) = K 0 1 (int (b * bd + t))"
    and thr: "\<And>i m. i < 2 ^ 31 \<Longrightarrow> length m = n * n \<Longrightarrow>
                K 0 1 (int i) m
                = Some (if i < n then scale_range mul (int i * int n + a i) (int i * int n + b i) m
                        else m)"
    and ab: "\<And>i. i < n \<Longrightarrow> 0 \<le> a i \<and> b i \<le> int n"
  shows "\<exists>mem'. launch_1d (to_unsigned (ceildiv (to_int (int n)) NB)) (to_unsigned NB) K mem
                 = Some mem' \<and> length mem' = n * n \<and>
           (\<forall>r<n. \<forall>c<n. mem' ! (r + c * n) =
              (if a c \<le> int r \<and> int r < b c then mem ! (r + c * n) * mul
               else mem ! (r + c * n)))"
proof -
  obtain g where g: "ceildiv (int n) 64 = int g" "n \<le> g * 64" "g * 64 \<le> 2 ^ 31"
    using grid_64 [OF n] by blast
  have "g \<le> g * 64" by simp
  then have g32: "g < 2 ^ 32" using g(3) by simp
  have grid: "to_unsigned (ceildiv (to_int (int n)) NB) = int g"
    using g(1) g32 n by (simp add: NB_def to_int_nat to_unsigned_nat)
  have blk: "to_unsigned NB = int 64" by (simp add: NB_def to_unsigned_id)
  have launch: "launch_1d (int g) (int 64) K mem = run_threads (\<lambda>i. K 0 1 (int i)) (g * 64) mem"
    by (rule launch_1d_linear, rule lin) (use g(3) in simp_all)
  have "\<exists>mem'. run_threads (\<lambda>i. K 0 1 (int i)) (g * 64) mem = Some mem' \<and> length mem' = n * n \<and>
           (\<forall>r<n. \<forall>c<n. mem' ! (r + c * n) =
              (if c < g * 64 \<and> a c \<le> int r \<and> int r < b c then mem ! (r + c * n) * mul
               else mem ! (r + c * n)))"
  proof (rule run_threads_columns [OF _ ab len])
    fix i and m :: "'a list" assume "i < g * 64" "length m = n * n"
    then show "K 0 1 (int i) m
        = Some (if i < n then scale_range mul (int i * int n + a i) (int i * int n + b i) m else m)"
      using g(3) by (intro thr) auto
  qed
  then obtain mem' where m': "run_threads (\<lambda>i. K 0 1 (int i)) (g * 64) mem = Some mem'"
      "length mem' = n * n"
      "\<And>r c. r < n \<Longrightarrow> c < n \<Longrightarrow> mem' ! (r + c * n) =
              (if c < g * 64 \<and> a c \<le> int r \<and> int r < b c then mem ! (r + c * n) * mul
               else mem ! (r + c * n))"
    by blast
  have "mem' ! (r + c * n) =
              (if a c \<le> int r \<and> int r < b c then mem ! (r + c * n) * mul
               else mem ! (r + c * n))" if "r < n" "c < n" for r c
    using m'(3) [OF that] that g(2) by simp
  then show ?thesis
    unfolding grid blk launch using m'(1,2) by simp
qed

declare mul_while_le.simps [simp del] mul_while_lt.simps [simp del]

lemma thread_index_0_1: "i < 2 ^ 31 \<Longrightarrow> thread_index 0 1 (int i) = int i"
  using thread_index_nat [of 0 1 i] by simp

lemma column_offset:
  fixes i n :: nat
  assumes "i < n" "n < 2 ^ 31"
  shows "to_size_t (int i * int n) = int i * int n"
  using nat_mult_bound [OF assms] by (intro to_size_t_id) auto

lemma diag_offset:
  fixes i n :: nat
  assumes "i < n" "n < 2 ^ 31"
  shows "to_size_t (int i * int n + int i) = int i * int n + int i"
proof -
  have "int i < 2 ^ 31" using assms by (intro int_lt_pow) simp
  then have "int i * int n + int i < 2 ^ 64" using nat_mult_bound [OF assms] by simp
  then show ?thesis by (intro to_size_t_id) auto
qed

lemma size_t_small: "n < 2 ^ 31 \<Longrightarrow> to_size_t (int n) = int n"
  by (intro to_size_t_nat) (erule less_trans, simp)

lemma mul_upper_diag_thread:
  assumes n: "n < 2 ^ 31" and i: "i < 2 ^ 31" and len: "length m = n * n"
  shows "mul_upper_diag (int n) mul 0 1 (int i) m
         = Some (if i < n then scale_range mul (int i * int n + 0) (int i * int n + (int i + 1)) m
                 else m)"
proof (cases "i < n")
  case False
  then show ?thesis
    using i by (simp add: mul_upper_diag_def thread_index_0_1 size_t_small)
next
  case True
  have "int i * int n + int i < int (length m)"
    using col_in_bounds [OF True] True len by simp
  then have "mul_while_le mul (int i * int n + int i) (int i * int n) m
        = Some (scale_range mul (int i * int n) (int i * int n + int i + 1) m)"
    by (intro mul_while_le_eq) auto
  then show ?thesis
    using True i n
    by (simp add: mul_upper_diag_def Let_def thread_index_0_1 size_t_small column_offset add.assoc)
qed

lemma mul_upper_thread:
  assumes n: "n < 2 ^ 31" and i: "i < 2 ^ 31" and len: "length m = n * n"
  shows "mul_upper (int n) mul 0 1 (int i) m
         = Some (if i < n then scale_range mul (int i * int n + 0) (int i * int n + int i) m
                 else m)"
proof (cases "i < n")
  case False
  then show ?thesis
    using i by (simp add: mul_upper_def thread_index_0_1 size_t_small)
next
  case True
  have "int i * int n + int i \<le> int (length m)"
    using col_in_bounds [OF True] True len by simp
  then have "mul_while_lt mul (int i * int n + int i) (int i * int n) m
        = Some (scale_range mul (int i * int n) (int i * int n + int i) m)"
    by (intro mul_while_lt_eq) auto
  then show ?thesis
    using True i n
    by (simp add: mul_upper_def Let_def thread_index_0_1 size_t_small column_offset)
qed

lemma mul_lower_diag_thread:
  assumes n: "n < 2 ^ 31" and i: "i < 2 ^ 31" and len: "length m = n * n"
  shows "mul_lower_diag (int n) mul 0 1 (int i) m
         = Some (if i < n then scale_range mul (int i * int n + int i) (int i * int n + int n) m
                 else m)"
proof (cases "i < n")
  case False
  then show ?thesis
    using i by (simp add: mul_lower_diag_def thread_index_0_1 size_t_small)
next
  case True
  have "int i * int n + int n \<le> int (length m)"
    using col_in_bounds [OF True] len by simp
  then have "mul_while_lt mul (int i * int n + int n) (int i * int n + int i) m
        = Some (scale_range mul (int i * int n + int i) (int i * int n + int n) m)"
    by (intro mul_while_lt_eq) auto
  then show ?thesis
    using True i n
    by (simp add: mul_lower_diag_def Let_def thread_index_0_1 size_t_small column_offset diag_offset)
qed

lemma mul_lower_thread:
  assumes n: "n < 2 ^ 31" and i: "i < 2 ^ 31" and len: "length m = n * n"
  shows "mul_lower (int n) mul 0 1 (int i) m
         = Some (if i < n then scale_range mul (int i * int n + (int i + 1)) (int i * int n + int n) m
                 else m)"
proof (cases "i < n")
  case False
  then show ?thesis
    using i by (simp add: mul_lower_def thread_index_0_1 size_t_small)
next
  case True
  have "int i * int n + int n \<le> int (length m)"
    using col_in_bounds [OF True] len by simp
  then have "mul_while_lt mul (int i * int n + int n) (int i * int n + int i + 1) m
        = Some (scale_range mul (int i * int n + int i + 1) (int i * int n + int n) m)"
    by (intro mul_while_lt_eq) auto
  then show ?thesis
    using True i n
    by (simp add: mul_lower_def Let_def thread_index_0_1 size_t_small column_offset diag_offset add.assoc)
qed

lemma mul_kernel_linear:
  "mul_upper sz mul (int b) (int bd) (int t) = mul_upper sz mul 0 1 (int (b * bd + t))"
  "mul_upper_diag sz mul (int b) (int bd) (int t) = mul_upper_diag sz mul 0 1 (int (b * bd + t))"
  "mul_lower sz mul (int b) (int bd) (int t) = mul_lower sz mul 0 1 (int (b * bd + t))"
  "mul_lower_diag sz mul (int b) (int bd) (int t) = mul_lower_diag sz mul 0 1 (int (b * bd + t))"
  by (rule ext, simp add: mul_upper_def mul_upper_diag_def mul_lower_def mul_lower_diag_def
        thread_index_linear)+

lemma launch_mul_select:
  assumes n: "n < 2 ^ 31" and len: "length mem = n * n"
  shows "\<exists>mem'.
     (if u \<and> p
      then launch_1d (to_unsigned (ceildiv (to_int (int n)) NB)) (to_unsigned NB)
             (mul_upper (to_size_t (int n)) mul) mem
      else if u
      then launch_1d (to_unsigned (ceildiv (to_int (int n)) NB)) (to_unsigned NB)
             (mul_upper_diag (to_size_t (int n)) mul) mem
      else if p
      then launch_1d (to_unsigned (ceildiv (to_int (int n)) NB)) (to_unsigned NB)
             (mul_lower (to_size_t (int n)) mul) mem
      else launch_1d (to_unsigned (ceildiv (to_int (int n)) NB)) (to_unsigned NB)
             (mul_lower_diag (to_size_t (int n)) mul) mem) = Some mem'
     \<and> length mem' = n * n
     \<and> (\<forall>r<n. \<forall>c<n. mem' ! (r + c * n) =
           (if in_triangle u p r c then mem ! (r + c * n) * mul else mem ! (r + c * n)))"
proof -
  note sz = size_t_small [OF n]
  have 1: "\<exists>mem'. launch_1d (to_unsigned (ceildiv (to_int (int n)) NB)) (to_unsigned NB)
             (mul_upper (int n) mul) mem = Some mem' \<and> length mem' = n * n
     \<and> (\<forall>r<n. \<forall>c<n. mem' ! (r + c * n) =
           (if 0 \<le> int r \<and> int r < int c then mem ! (r + c * n) * mul else mem ! (r + c * n)))"
    by (rule launch_columns [OF n len mul_kernel_linear(1) mul_upper_thread [OF n]]) auto
  have 2: "\<exists>mem'. launch_1d (to_unsigned (ceildiv (to_int (int n)) NB)) (to_unsigned NB)
             (mul_upper_diag (int n) mul) mem = Some mem' \<and> length mem' = n * n
     \<and> (\<forall>r<n. \<forall>c<n. mem' ! (r + c * n) =
           (if 0 \<le> int r \<and> int r < int c + 1 then mem ! (r + c * n) * mul else mem ! (r + c * n)))"
    by (rule launch_columns [OF n len mul_kernel_linear(2) mul_upper_diag_thread [OF n]]) auto
  have 3: "\<exists>mem'. launch_1d (to_unsigned (ceildiv (to_int (int n)) NB)) (to_unsigned NB)
             (mul_lower (int n) mul) mem = Some mem' \<and> length mem' = n * n
     \<and> (\<forall>r<n. \<forall>c<n. mem' ! (r + c * n) =
           (if int c + 1 \<le> int r \<and> int r < int n then mem ! (r + c * n) * mul else mem ! (r + c * n)))"
    by (rule launch_columns [OF n len mul_kernel_linear(3) mul_lower_thread [OF n]]) auto
  have 4: "\<exists>mem'. launch_1d (to_unsigned (ceildiv (to_int (int n)) NB)) (to_unsigned NB)
             (mul_lower_diag (int n) mul) mem = Some mem' \<and> length mem' = n * n
     \<and> (\<forall>r<n. \<forall>c<n. mem' ! (r + c * n) =
           (if int c \<le> int r \<and> int r < int n then mem ! (r + c * n) * mul else mem ! (r + c * n)))"
    by (rule launch_columns [OF n len mul_kernel_linear(4) mul_lower_diag_thread [OF n]]) auto
  show ?thesis
  proof (cases u; cases p)
    assume "u" "p"
    then show ?thesis using 1 unfolding sz by (auto simp: in_triangle_def)
  next
    assume "u" "\<not> p"
    then show ?thesis using 2 unfolding sz by (auto simp: in_triangle_def)
  next
    assume "\<not> u" "p"
    then show ?thesis using 3 unfolding sz by (auto simp: in_triangle_def)
  next
    assume "\<not> u" "\<not> p"
    then show ?thesis using 4 unfolding sz by (auto simp: in_triangle_def)
  qed
qed

lemma square_matrix_cases:
  assumes "square_matrix A n"
  obtains (F) "stride0 A = 1" "stride1 A = n" "size0 A = n" "size1 A = n" "length (data A) = n * n"
        | (C) "stride0 A \<noteq> 1" "stride0 A = n" "stride1 A = 1" "size0 A = n" "size1 A = n"
              "length (data A) = n * n"
  using assms unfolding square_matrix_def by (cases "stride0 A = 1") auto

lemma cuda_mul_triang_square:
  assumes cu: "is_cuda A" and fl: "dispatch_floating_types (scalar_type A)"
    and sq: "square_matrix A n" and n: "n < 2 ^ 31"
  shows "\<exists>mem'. cuda_mul_triang cast A upper p m = Inr (A\<lparr>data := mem'\<rparr>) \<and> length mem' = n * n \<and>
           (\<forall>r<n. \<forall>c<n. elem (A\<lparr>data := mem'\<rparr>) r c =
              (if in_triangle upper p r c then elem A r c * cast m else elem A r c))"
  using sq
proof (cases rule: square_matrix_cases)
  case F
  obtain mem' where L:
     "(if upper \<and> p
      then launch_1d (to_unsigned (ceildiv (to_int (int n)) NB)) (to_unsigned NB)
             (mul_upper (to_size_t (int n)) (cast m)) (data A)
      else if upper
      then launch_1d (to_unsigned (ceildiv (to_int (int n)) NB)) (to_unsigned NB)
             (mul_upper_diag (to_size_t (int n)) (cast m)) (data A)
      else if p
      then launch_1d (to_unsigned (ceildiv (to_int (int n)) NB)) (to_unsigned NB)
             (mul_lower (to_size_t (int n)) (cast m)) (data A)
      else launch_1d (to_unsigned (ceildiv (to_int (int n)) NB)) (to_unsigned NB)
             (mul_lower_diag (to_size_t (int n)) (cast m)) (data A)) = Some mem'"
     and len: "length mem' = n * n"
     and el: "\<And>r c. r < n \<Longrightarrow> c < n \<Longrightarrow> mem' ! (r + c * n) =
           (if in_triangle upper p r c then data A ! (r + c * n) * cast m else data A ! (r + c * n))"
    using launch_mul_select [OF n F(5), of upper p "cast m"] by blast
  have "cuda_mul_triang cast A upper p m = Inr (A\<lparr>data := mem'\<rparr>)"
    unfolding cuda_mul_triang_def Let_def using cu fl F L by (auto split: if_splits)
  moreover have "elem (A\<lparr>data := mem'\<rparr>) r c =
              (if in_triangle upper p r c then elem A r c * cast m else elem A r c)"
    if "r < n" "c < n" for r c
    using el [OF that] F by (simp add: elem_def)
  ultimately show ?thesis using len by blast
next
  case C
  obtain mem' where L:
     "(if \<not> upper \<and> p
      then launch_1d (to_unsigned (ceildiv (to_int (int n)) NB)) (to_unsigned NB)
             (mul_upper (to_size_t (int n)) (cast m)) (data A)
      else if \<not> upper
      then launch_1d (to_unsigned (ceildiv (to_int (int n)) NB)) (to_unsigned NB)
             (mul_upper_diag (to_size_t (int n)) (cast m)) (data A)
      else if p
      then launch_1d (to_unsigned (ceildiv (to_int (int n)) NB)) (to_unsigned NB)
             (mul_lower (to_size_t (int n)) (cast m)) (data A)
      else launch_1d (to_unsigned (ceildiv (to_int (int n)) NB)) (to_unsigned NB)
             (mul_lower_diag (to_size_t (int n)) (cast m)) (data A)) = Some mem'"
     and len: "length mem' = n * n"
     and el: "\<And>r c. r < n \<Longrightarrow> c < n \<Longrightarrow> mem' ! (r + c * n) =
           (if in_triangle (\<not> upper) p r c then data A ! (r + c * n) * cast m
            else data A ! (r + c * n))"
    using launch_mul_select [OF n C(6), of "\<not> upper" p "cast m"] by blast
  have "cuda_mul_triang cast A upper p m = Inr (A\<lparr>data := mem'\<rparr>)"
    unfolding cuda_mul_triang_def Let_def using cu fl C L by (auto split: if_splits)
  moreover have "elem (A\<lparr>data := mem'\<rparr>) r c =
              (if in_triangle upper p r c then elem A r c * cast m else elem A r c)"
    if "r < n" "c < n" for r c
  proof -
    have sw: "in_triangle (\<not> upper) p c r = in_triangle upper p r c"
      by (simp add: in_triangle_def)
    show ?thesis using el [OF that(2,1)] C unfolding sw by (simp add: elem_def add.commute)
  qed
  ultimately show ?thesis using len by blast
qed

lemma cell_bound:
  fixes r c n :: nat
  assumes "r < n" "c < n"
  shows "r + c * n < n * n"
proof -
  have "Suc c * n \<le> n * n" using assms by (intro mult_le_mono1) simp
  then show ?thesis using assms by simp
qed

lemma cell_unique:
  fixes r c r' c' n :: nat
  assumes "r < n" "r' < n" "r + c * n = r' + c' * n"
  shows "r = r' \<and> c = c'"
proof -
  have "(r + c * n) mod n = (r' + c' * n) mod n" using assms(3) by simp
  then have r: "r = r'" using assms(1,2) by simp
  have "(r + c * n) div n = (r' + c' * n) div n" using assms(3) by simp
  then show ?thesis using r assms(1,2) by simp
qed

lemma mono_cell:
  fixes i k n :: nat
  assumes "k \<le> i"
  shows "i + k * n \<le> i + i * n"
  using assms by simp

lemma rd_nat: "q < length mem \<Longrightarrow> rd mem (int q) = Some (mem ! q)"
  by (simp add: rd_def)

lemma wr_nat: "q < length mem \<Longrightarrow> wr mem (int q) v = Some (mem[q := v])"
  by (simp add: wr_def)

text \<open>One iteration of the loop of thread i, and its exit.\<close>

lemma copy_lower_for_step:
  assumes i: "i < n" and k: "k < i" and r: "i + i * n < 2 ^ 31" and len: "length mem = n * n"
  shows "copy_lower_for (int n) (int i) (int (i + k * n)) (int (i * n + k)) mem
       = copy_lower_for (int n) (int i) (int (i + Suc k * n)) (int (i * n + Suc k))
           (mem[i * n + k := mem ! (i + k * n)])"
proof -
  have kn: "k < n" "Suc k < n" using i k by simp_all
  have b1: "i + k * n < i + i * n" using k i by simp
  have b2: "i + Suc k * n \<le> i + i * n" using k by (intro mono_cell) simp
  have b3: "i * n + Suc k \<le> i + i * n" using k by simp
  have inb1: "i + k * n < n * n" using cell_bound [OF i kn(1)] .
  have inb2: "i * n + k < n * n" using cell_bound [OF kn(1) i] by (simp add: add.commute)
  have v1: "i + k * n < 2 ^ 31" using b1 r by (rule less_trans)
  have v2: "i + Suc k * n < 2 ^ 31" using b2 r by (rule le_less_trans)
  have v3: "i * n + Suc k < 2 ^ 31" using b3 r by (rule le_less_trans)
  have v4: "i < 2 ^ 31" "i * n < 2 ^ 31" using r by simp_all
  have e1: "to_size_t (int (i + k * n)) = int (i + k * n)" by (rule size_t_small [OF v1])
  have e2: "to_size_t (int i) = int i" by (rule size_t_small [OF v4(1)])
  have e3: "to_size_t (int i * int n) = int (i * n)"
    using size_t_small [OF v4(2)] by simp
  have e4: "to_size_t (int i + int (i * n)) = int (i + i * n)"
    using size_t_small [OF r] by simp
  have e5: "to_size_t (int (i + k * n) + int n) = int (i + Suc k * n)"
    using size_t_small [OF v2] by (simp add: algebra_simps)
  have e6: "to_int (int (i + Suc k * n)) = int (i + Suc k * n)"
    by (rule to_int_nat [OF v2])
  have e7: "to_int (int (i * n + k) + 1) = int (i * n + Suc k)"
    using to_int_nat [OF v3] by (simp add: algebra_simps)
  have g: "int (i + k * n) < int (i + i * n)" using b1 by (simp only: of_nat_less_iff)
  have rd: "rd mem (int (i + k * n)) = Some (mem ! (i + k * n))"
    using inb1 len by (intro rd_nat) simp
  have wr: "wr mem (int (i * n + k)) v = Some (mem[i * n + k := v])" for v
    using inb2 len by (intro wr_nat) simp
  show ?thesis
    by (subst copy_lower_for.simps)
       (simp only: e1 e2 e3 e4 g if_True rd wr option.case e5 e6 e7)
qed

lemma copy_lower_for_exit:
  assumes r: "i + i * n < 2 ^ 31"
  shows "copy_lower_for (int n) (int i) (int (i + i * n)) cp mem = Some mem"
proof -
  have v4: "i < 2 ^ 31" "i * n < 2 ^ 31" using r by simp_all
  have e1: "to_size_t (int (i + i * n)) = int (i + i * n)" by (rule size_t_small [OF r])
  have e2: "to_size_t (int i) = int i" by (rule size_t_small [OF v4(1)])
  have e3: "to_size_t (int i * int n) = int (i * n)"
    using size_t_small [OF v4(2)] by simp
  have e4: "to_size_t (int i + int (i * n)) = int (i + i * n)"
    using size_t_small [OF r] by simp
  show ?thesis
    by (subst copy_lower_for.simps) (simp only: e1 e2 e3 e4 less_irrefl if_False)
qed

lemma copy_lower_for_run:
  assumes i: "i < n" and r: "i + i * n < 2 ^ 31"
  shows "k \<le> i \<Longrightarrow> length mem = n * n \<Longrightarrow>
         \<exists>m'. copy_lower_for (int n) (int i) (int (i + k * n)) (int (i * n + k)) mem = Some m'
            \<and> length m' = n * n
            \<and> (\<forall>r<n. \<forall>c<n. m' ! (r + c * n) =
                  (if c = i \<and> k \<le> r \<and> r < i then mem ! (i + r * n) else mem ! (r + c * n)))"
proof (induction "i - k" arbitrary: k mem)
  case 0
  then have ki: "k = i" by simp
  have "copy_lower_for (int n) (int i) (int (i + k * n)) (int (i * n + k)) mem = Some mem"
    unfolding ki by (rule copy_lower_for_exit [OF r])
  moreover have "mem ! (r' + c * n) =
        (if c = i \<and> k \<le> r' \<and> r' < i then mem ! (i + r' * n) else mem ! (r' + c * n))" for r' c
    using ki by auto
  ultimately show ?case using 0 by blast
next
  case (Suc d)
  then have k: "k < i" by simp
  let ?mem = "mem[i * n + k := mem ! (i + k * n)]"
  have len: "length ?mem = n * n" using Suc.prems by simp
  have "d = i - Suc k" using Suc.hyps(2) by simp
  from Suc.hyps(1) [OF this _ len] k
  obtain m' where m': "copy_lower_for (int n) (int i) (int (i + Suc k * n)) (int (i * n + Suc k)) ?mem
        = Some m'" "length m' = n * n"
      and el: "\<And>r c. r < n \<Longrightarrow> c < n \<Longrightarrow> m' ! (r + c * n) =
                  (if c = i \<and> Suc k \<le> r \<and> r < i then ?mem ! (i + r * n) else ?mem ! (r + c * n))"
    by force
  have step: "copy_lower_for (int n) (int i) (int (i + k * n)) (int (i * n + k)) mem = Some m'"
    using copy_lower_for_step [OF i k r Suc.prems(2)] m'(1) by simp
  have "m' ! (r' + c * n) =
        (if c = i \<and> k \<le> r' \<and> r' < i then mem ! (i + r' * n) else mem ! (r' + c * n))"
    if rc: "r' < n" "c < n" for r' c
  proof -
    have kn: "k < n" using k i by simp
    have src: "?mem ! (i + r' * n) = mem ! (i + r' * n)"
    proof -
      have "i + r' * n \<noteq> k + i * n" using cell_unique [OF i kn, of r' i] k by auto
      then show ?thesis by (simp add: add.commute)
    qed
    have same: "(r' + c * n = i * n + k) = (r' = k \<and> c = i)"
      using cell_unique [OF rc(1) kn, of c i] by (auto simp: add.commute)
    have inb: "i * n + k < length mem"
      using cell_bound [OF kn i] Suc.prems(2) by (simp add: add.commute)
    have cur: "?mem ! (r' + c * n) = (if r' = k \<and> c = i then mem ! (i + k * n) else mem ! (r' + c * n))"
      using inb same by (auto simp: nth_list_update)
    show ?thesis unfolding el [OF rc] src cur using k by auto
  qed
  then show ?case using step m'(2) by blast
qed

lemma copy_upper_for_step:
  assumes i: "i < n" and k: "k < i" and r: "i + i * n < 2 ^ 31" and len: "length mem = n * n"
  shows "copy_upper_for (int n) (int i) (int (i + k * n)) (int (i * n + k)) mem
       = copy_upper_for (int n) (int i) (int (i + Suc k * n)) (int (i * n + Suc k))
           (mem[i + k * n := mem ! (i * n + k)])"
proof -
  have kn: "k < n" "Suc k < n" using i k by simp_all
  have b1: "i + k * n < i + i * n" using k i by simp
  have b2: "i + Suc k * n \<le> i + i * n" using k by (intro mono_cell) simp
  have b3: "i * n + Suc k \<le> i + i * n" using k by simp
  have inb1: "i + k * n < n * n" using cell_bound [OF i kn(1)] .
  have inb2: "i * n + k < n * n" using cell_bound [OF kn(1) i] by (simp add: add.commute)
  have v1: "i + k * n < 2 ^ 31" using b1 r by (rule less_trans)
  have v2: "i + Suc k * n < 2 ^ 31" using b2 r by (rule le_less_trans)
  have v3: "i * n + Suc k < 2 ^ 31" using b3 r by (rule le_less_trans)
  have v4: "i < 2 ^ 31" "i * n < 2 ^ 31" using r by simp_all
  have e1: "to_size_t (int (i + k * n)) = int (i + k * n)" by (rule size_t_small [OF v1])
  have e2: "to_size_t (int i) = int i" by (rule size_t_small [OF v4(1)])
  have e3: "to_size_t (int i * int n) = int (i * n)"
    using size_t_small [OF v4(2)] by simp
  have e4: "to_size_t (int i + int (i * n)) = int (i + i * n)"
    using size_t_small [OF r] by simp
  have e5: "to_size_t (int (i + k * n) + int n) = int (i + Suc k * n)"
    using size_t_small [OF v2] by (simp add: algebra_simps)
  have e6: "to_int (int (i + Suc k * n)) = int (i + Suc k * n)"
    by (rule to_int_nat [OF v2])
  have e7: "to_int (int (i * n + k) + 1) = int (i * n + Suc k)"
    using to_int_nat [OF v3] by (simp add: algebra_simps)
  have g: "int (i + k * n) < int (i + i * n)" using b1 by (simp only: of_nat_less_iff)
  have rd: "rd mem (int (i * n + k)) = Some (mem ! (i * n + k))"
    using inb2 len by (intro rd_nat) simp
  have wr: "wr mem (int (i + k * n)) v = Some (mem[i + k * n := v])" for v
    using inb1 len by (intro wr_nat) simp
  show ?thesis
    by (subst copy_upper_for.simps)
       (simp only: e1 e2 e3 e4 g if_True rd wr option.case e5 e6 e7)
qed

lemma copy_upper_for_exit:
  assumes r: "i + i * n < 2 ^ 31"
  shows "copy_upper_for (int n) (int i) (int (i + i * n)) cp mem = Some mem"
proof -
  have v4: "i < 2 ^ 31" "i * n < 2 ^ 31" using r by simp_all
  have e1: "to_size_t (int (i + i * n)) = int (i + i * n)" by (rule size_t_small [OF r])
  have e2: "to_size_t (int i) = int i" by (rule size_t_small [OF v4(1)])
  have e3: "to_size_t (int i * int n) = int (i * n)"
    using size_t_small [OF v4(2)] by simp
  have e4: "to_size_t (int i + int (i * n)) = int (i + i * n)"
    using size_t_small [OF r] by simp
  show ?thesis
    by (subst copy_upper_for.simps) (simp only: e1 e2 e3 e4 less_irrefl if_False)
qed

lemma copy_upper_for_run:
  assumes i: "i < n" and r: "i + i * n < 2 ^ 31"
  shows "k \<le> i \<Longrightarrow> length mem = n * n \<Longrightarrow>
         \<exists>m'. copy_upper_for (int n) (int i) (int (i + k * n)) (int (i * n + k)) mem = Some m'
            \<and> length m' = n * n
            \<and> (\<forall>r<n. \<forall>c<n. m' ! (r + c * n) =
                  (if r = i \<and> k \<le> c \<and> c < i then mem ! (c + i * n) else mem ! (r + c * n)))"
proof (induction "i - k" arbitrary: k mem)
  case 0
  then have ki: "k = i" by simp
  have "copy_upper_for (int n) (int i) (int (i + k * n)) (int (i * n + k)) mem = Some mem"
    unfolding ki by (rule copy_upper_for_exit [OF r])
  moreover have "mem ! (r' + c * n) =
        (if r' = i \<and> k \<le> c \<and> c < i then mem ! (c + i * n) else mem ! (r' + c * n))" for r' c
    using ki by auto
  ultimately show ?case using 0 by blast
next
  case (Suc d)
  then have k: "k < i" by simp
  let ?mem = "mem[i + k * n := mem ! (i * n + k)]"
  have len: "length ?mem = n * n" using Suc.prems by simp
  have "d = i - Suc k" using Suc.hyps(2) by simp
  from Suc.hyps(1) [OF this _ len] k
  obtain m' where m': "copy_upper_for (int n) (int i) (int (i + Suc k * n)) (int (i * n + Suc k)) ?mem
        = Some m'" "length m' = n * n"
      and el: "\<And>r c. r < n \<Longrightarrow> c < n \<Longrightarrow> m' ! (r + c * n) =
                  (if r = i \<and> Suc k \<le> c \<and> c < i then ?mem ! (c + i * n) else ?mem ! (r + c * n))"
    by force
  have step: "copy_upper_for (int n) (int i) (int (i + k * n)) (int (i * n + k)) mem = Some m'"
    using copy_upper_for_step [OF i k r Suc.prems(2)] m'(1) by simp
  have "m' ! (r' + c * n) =
        (if r' = i \<and> k \<le> c \<and> c < i then mem ! (c + i * n) else mem ! (r' + c * n))"
    if rc: "r' < n" "c < n" for r' c
  proof -
    have kn: "k < n" using k i by simp
    have src: "?mem ! (c + i * n) = mem ! (c + i * n)"
    proof -
      have "c + i * n \<noteq> i + k * n" using cell_unique [OF rc(2) i, of i k] k by auto
      then show ?thesis by simp
    qed
    have same: "(r' + c * n = i + k * n) = (r' = i \<and> c = k)"
      using cell_unique [OF rc(1) i, of c k] by auto
    have inb: "i + k * n < length mem"
      using cell_bound [OF i kn] Suc.prems(2) by simp
    have cur: "?mem ! (r' + c * n) = (if r' = i \<and> c = k then mem ! (i * n + k) else mem ! (r' + c * n))"
      using inb same by (auto simp: nth_list_update)
    show ?thesis unfolding el [OF rc] src cur using k by (auto simp: add.commute)
  qed
  then show ?case using step m'(2) by blast
qed

lemma copy_simple_kernel_lower_thread:
  assumes n: "n < 2 ^ 31" and t: "i < 2 ^ 31" and r: "i < n \<Longrightarrow> i + i * n < 2 ^ 31"
    and len: "length mem = n * n"
  shows "\<exists>m'. copy_simple_kernel_lower (int n) 0 1 (int i) mem = Some m' \<and> length m' = n * n
            \<and> (\<forall>r<n. \<forall>c<n. m' ! (r + c * n) =
                  (if c = i \<and> r < c then mem ! (c + r * n) else mem ! (r + c * n)))"
proof (cases "i < n")
  case False
  then have "copy_simple_kernel_lower (int n) 0 1 (int i) mem = Some mem"
    using t by (simp add: copy_simple_kernel_lower_def thread_index_0_1 size_t_small)
  then show ?thesis using False len by auto
next
  case True
  have v: "i * n < 2 ^ 31" using r [OF True] by simp
  have e: "to_int (to_size_t (int i * int n)) = int (i * n)"
    using size_t_small [OF v] to_int_nat [OF v] by simp
  have start: "copy_simple_kernel_lower (int n) 0 1 (int i) mem
      = copy_lower_for (int n) (int i) (int (i + 0 * n)) (int (i * n + 0)) mem"
    using True t e by (simp add: copy_simple_kernel_lower_def Let_def thread_index_0_1 size_t_small)
  from copy_lower_for_run [OF True r [OF True], of 0 mem] len
  obtain m' where m': "copy_lower_for (int n) (int i) (int (i + 0 * n)) (int (i * n + 0)) mem = Some m'"
      "length m' = n * n"
      and el: "\<And>r c. r < n \<Longrightarrow> c < n \<Longrightarrow> m' ! (r + c * n) =
                  (if c = i \<and> 0 \<le> r \<and> r < i then mem ! (i + r * n) else mem ! (r + c * n))"
    by blast
  have "m' ! (r' + c * n) = (if c = i \<and> r' < c then mem ! (c + r' * n) else mem ! (r' + c * n))"
    if "r' < n" "c < n" for r' c
    using el [OF that] by auto
  then show ?thesis using start m' by auto
qed

lemma copy_simple_kernel_upper_thread:
  assumes n: "n < 2 ^ 31" and t: "i < 2 ^ 31" and r: "i < n \<Longrightarrow> i + i * n < 2 ^ 31"
    and len: "length mem = n * n"
  shows "\<exists>m'. copy_simple_kernel_upper (int n) 0 1 (int i) mem = Some m' \<and> length m' = n * n
            \<and> (\<forall>r<n. \<forall>c<n. m' ! (r + c * n) =
                  (if r = i \<and> c < r then mem ! (c + r * n) else mem ! (r + c * n)))"
proof (cases "i < n")
  case False
  then have "copy_simple_kernel_upper (int n) 0 1 (int i) mem = Some mem"
    using t by (simp add: copy_simple_kernel_upper_def thread_index_0_1 size_t_small)
  then show ?thesis using False len by auto
next
  case True
  have v: "i * n < 2 ^ 31" using r [OF True] by simp
  have e: "to_int (to_size_t (int i * int n)) = int (i * n)"
    using size_t_small [OF v] to_int_nat [OF v] by simp
  have start: "copy_simple_kernel_upper (int n) 0 1 (int i) mem
      = copy_upper_for (int n) (int i) (int (i + 0 * n)) (int (i * n + 0)) mem"
    using True t e by (simp add: copy_simple_kernel_upper_def Let_def thread_index_0_1 size_t_small)
  from copy_upper_for_run [OF True r [OF True], of 0 mem] len
  obtain m' where m': "copy_upper_for (int n) (int i) (int (i + 0 * n)) (int (i * n + 0)) mem = Some m'"
      "length m' = n * n"
      and el: "\<And>r c. r < n \<Longrightarrow> c < n \<Longrightarrow> m' ! (r + c * n) =
                  (if r = i \<and> 0 \<le> c \<and> c < i then mem ! (c + i * n) else mem ! (r + c * n))"
    by blast
  have "m' ! (r' + c * n) = (if r' = i \<and> c < r' then mem ! (c + r' * n) else mem ! (r' + c * n))"
    if "r' < n" "c < n" for r' c
    using el [OF that] by auto
  then show ?thesis using start m' by auto
qed

lemma run_threads_mirror:
  assumes f: "\<And>i m. i < T \<Longrightarrow> length m = n * n \<Longrightarrow>
                \<exists>m'. f i m = Some m' \<and> length m' = n * n \<and>
                  (\<forall>r<n. \<forall>c<n. m' ! (r + c * n) =
                     (if W i r c then m ! (c + r * n) else m ! (r + c * n)))"
    and excl: "\<And>i j r c. W i r c \<Longrightarrow> \<not> W j c r"
    and len: "length mem = n * n"
  shows "\<exists>mem'. run_threads f T mem = Some mem' \<and> length mem' = n * n \<and>
           (\<forall>r<n. \<forall>c<n. mem' ! (r + c * n) =
              (if \<exists>i<T. W i r c then mem ! (c + r * n) else mem ! (r + c * n)))"
  using f
proof (induction T)
  case 0
  then show ?case using len by simp
next
  case (Suc T)
  then obtain m where m: "run_threads f T mem = Some m" "length m = n * n"
    and mv: "\<And>r c. r < n \<Longrightarrow> c < n \<Longrightarrow> m ! (r + c * n) =
              (if \<exists>i<T. W i r c then mem ! (c + r * n) else mem ! (r + c * n))"
    by force
  from Suc.prems [of T m] m(2)
  obtain m' where m': "f T m = Some m'" "length m' = n * n"
    and mv': "\<And>r c. r < n \<Longrightarrow> c < n \<Longrightarrow> m' ! (r + c * n) =
                     (if W T r c then m ! (c + r * n) else m ! (r + c * n))"
    by force
  have "m' ! (r + c * n) =
              (if \<exists>i<Suc T. W i r c then mem ! (c + r * n) else mem ! (r + c * n))"
    if rc: "r < n" "c < n" for r c
  proof (cases "W T r c")
    case True
    then have "\<not> (\<exists>i<T. W i c r)" using excl by blast
    then have "m ! (c + r * n) = mem ! (c + r * n)" using mv [OF rc(2,1)] by auto
    then show ?thesis using mv' [OF rc] True by auto
  next
    case False
    then have "(\<exists>i<Suc T. W i r c) = (\<exists>i<T. W i r c)" by (auto simp: less_Suc_eq)
    then show ?thesis using mv' [OF rc] mv [OF rc] False by simp
  qed
  then show ?case using m m' by (auto simp: run_threads_Suc)
qed

lemma launch_grid:
  assumes n: "n < 2 ^ 31"
  shows "\<exists>g. to_unsigned (ceildiv (to_int (int n)) NB) = int g \<and> to_unsigned NB = int 64
            \<and> n \<le> g * 64 \<and> g * 64 \<le> 2 ^ 31"
proof -
  obtain g where g: "ceildiv (int n) 64 = int g" "n \<le> g * 64" "g * 64 \<le> 2 ^ 31"
    using grid_64 [OF n] by blast
  have "g \<le> g * 64" by simp
  then have g32: "g < 2 ^ 32" using g(3) by simp
  have "to_unsigned (ceildiv (to_int (int n)) NB) = int g"
    using g(1) g32 n by (simp add: NB_def to_int_nat to_unsigned_nat)
  moreover have "to_unsigned NB = int 64" by (simp add: NB_def to_unsigned_id)
  ultimately show ?thesis using g(2,3) by blast
qed

lemma square_fits_int:
  fixes n :: nat
  assumes "n * n \<le> 2 ^ 31"
  shows "n < 2 ^ 31" and "i < n \<Longrightarrow> i + i * n < 2 ^ 31"
proof -
  show "i + i * n < 2 ^ 31" if "i < n"
    using cell_bound [OF that that] assms by simp
  show "n < 2 ^ 31"
  proof (cases "n \<le> 1")
    case True
    then show ?thesis by simp
  next
    case False
    then have "n * 2 \<le> n * n" by (intro mult_le_mono2) simp
    then have "n * 2 \<le> 2 ^ 31" using assms by (rule le_trans)
    then show ?thesis by simp
  qed
qed

lemma copy_kernel_linear:
  "copy_simple_kernel_lower sz (int b) (int bd) (int t)
     = copy_simple_kernel_lower sz 0 1 (int (b * bd + t))"
  "copy_simple_kernel_upper sz (int b) (int bd) (int t)
     = copy_simple_kernel_upper sz 0 1 (int (b * bd + t))"
  by (rule ext, simp add: copy_simple_kernel_lower_def copy_simple_kernel_upper_def
        thread_index_linear)+

lemma launch_copy_lower:
  assumes nn: "n * n \<le> 2 ^ 31" and len: "length mem = n * n"
  shows "\<exists>mem'. launch_1d (to_unsigned (ceildiv (to_int (int n)) NB)) (to_unsigned NB)
                  (copy_simple_kernel_lower (to_size_t (int n))) mem = Some mem'
            \<and> length mem' = n * n
            \<and> (\<forall>r<n. \<forall>c<n. mem' ! (r + c * n) =
                  (if r < c then mem ! (c + r * n) else mem ! (r + c * n)))"
proof -
  note n = square_fits_int(1) [OF nn]
  obtain g where g: "to_unsigned (ceildiv (to_int (int n)) NB) = int g" "to_unsigned NB = int 64"
      "n \<le> g * 64" "g * 64 \<le> 2 ^ 31"
    using launch_grid [OF n] by blast
  let ?f = "\<lambda>i. copy_simple_kernel_lower (int n) 0 1 (int i)"
  have launch: "launch_1d (int g) (int 64) (copy_simple_kernel_lower (int n)) mem
        = run_threads ?f (g * 64) mem"
    by (rule launch_1d_linear, rule copy_kernel_linear) (use g(4) in simp_all)
  have "\<exists>mem'. run_threads ?f (g * 64) mem = Some mem' \<and> length mem' = n * n \<and>
           (\<forall>r<n. \<forall>c<n. mem' ! (r + c * n) =
              (if \<exists>i<g * 64. c = i \<and> r < c then mem ! (c + r * n) else mem ! (r + c * n)))"
  proof (rule run_threads_mirror [where W = "\<lambda>i r c. c = i \<and> r < c", OF _ _ len])
    fix i and m :: "'a list" assume "i < g * 64" "length m = n * n"
    then show "\<exists>m'. ?f i m = Some m' \<and> length m' = n * n \<and>
                  (\<forall>r<n. \<forall>c<n. m' ! (r + c * n) =
                     (if c = i \<and> r < c then m ! (c + r * n) else m ! (r + c * n)))"
      using g(4) square_fits_int(2) [OF nn]
      by (intro copy_simple_kernel_lower_thread [OF n]) auto
  qed auto
  then obtain mem' where m': "run_threads ?f (g * 64) mem = Some mem'" "length mem' = n * n"
      "\<And>r c. r < n \<Longrightarrow> c < n \<Longrightarrow> mem' ! (r + c * n) =
              (if \<exists>i<g * 64. c = i \<and> r < c then mem ! (c + r * n) else mem ! (r + c * n))"
    by blast
  have "mem' ! (r + c * n) = (if r < c then mem ! (c + r * n) else mem ! (r + c * n))"
    if "r < n" "c < n" for r c
    using m'(3) [OF that] that g(3) by simp
  then show ?thesis
    unfolding g(1,2) size_t_small [OF n] launch using m'(1,2) by simp
qed

lemma launch_copy_upper:
  assumes nn: "n * n \<le> 2 ^ 31" and len: "length mem = n * n"
  shows "\<exists>mem'. launch_1d (to_unsigned (ceildiv (to_int (int n)) NB)) (to_unsigned NB)
                  (copy_simple_kernel_upper (to_size_t (int n))) mem = Some mem'
            \<and> length mem' = n * n
            \<and> (\<forall>r<n. \<forall>c<n. mem' ! (r + c * n) =
                  (if c < r then mem ! (c + r * n) else mem ! (r + c * n)))"
proof -
  note n = square_fits_int(1) [OF nn]
  obtain g where g: "to_unsigned (ceildiv (to_int (int n)) NB) = int g" "to_unsigned NB = int 64"
      "n \<le> g * 64" "g * 64 \<le> 2 ^ 31"
    using launch_grid [OF n] by blast
  let ?f = "\<lambda>i. copy_simple_kernel_upper (int n) 0 1 (int i)"
  have launch: "launch_1d (int g) (int 64) (copy_simple_kernel_upper (int n)) mem
        = run_threads ?f (g * 64) mem"
    by (rule launch_1d_linear, rule copy_kernel_linear) (use g(4) in simp_all)
  have "\<exists>mem'. run_threads ?f (g * 64) mem = Some mem' \<and> length mem' = n * n \<and>
           (\<forall>r<n. \<forall>c<n. mem' ! (r + c * n) =
              (if \<exists>i<g * 64. r = i \<and> c < r then mem ! (c + r * n) else mem ! (r + c * n)))"
  proof (rule run_threads_mirror [where W = "\<lambda>i r c. r = i \<and> c < r", OF _ _ len])
    fix i and m :: "'a list" assume "i < g * 64" "length m = n * n"
    then show "\<exists>m'. ?f i m = Some m' \<and> length m' = n * n \<and>
                  (\<forall>r<n. \<forall>c<n. m' ! (r + c * n) =
                     (if r = i \<and> c < r then m ! (c + r * n) else m ! (r + c * n)))"
      using g(4) square_fits_int(2) [OF nn]
      by (intro copy_simple_kernel_upper_thread [OF n]) auto
  qed auto
  then obtain mem' where m': "run_threads ?f (g * 64) mem = Some mem'" "length mem' = n * n"
      "\<And>r c. r < n \<Longrightarrow> c < n \<Longrightarrow> mem' ! (r + c * n) =
              (if \<exists>i<g * 64. r = i \<and> c < r then mem ! (c + r * n) else mem ! (r + c * n))"
    by blast
  have "mem' ! (r + c * n) = (if c < r then mem ! (c + r * n) else mem ! (r + c * n))"
    if "r < n" "c < n" for r c
    using m'(3) [OF that] that g(3) by simp
  then show ?thesis
    unfolding g(1,2) size_t_small [OF n] launch using m'(1,2) by simp
qed

lemma cuda_copy_triang_square:
  assumes cu: "is_cuda A" and fl: "dispatch_floating_types (scalar_type A)"
    and sq: "square_matrix A n" and nn: "n * n \<le> 2 ^ 31"
  shows "\<exists>mem'. cuda_copy_triang A upper = Inr (A\<lparr>data := mem'\<rparr>) \<and> length mem' = n * n \<and>
           (\<forall>r<n. \<forall>c<n. elem (A\<lparr>data := mem'\<rparr>) r c =
              (if in_triangle upper False r c then elem A r c else elem A c r))"
  using sq
proof (cases rule: square_matrix_cases)
  case F
  show ?thesis
  proof (cases upper)
    case True
    obtain mem' where L: "launch_1d (to_unsigned (ceildiv (to_int (int n)) NB)) (to_unsigned NB)
                  (copy_simple_kernel_upper (to_size_t (int n))) (data A) = Some mem'"
      and len: "length mem' = n * n"
      and el: "\<And>r c. r < n \<Longrightarrow> c < n \<Longrightarrow> mem' ! (r + c * n) =
                  (if c < r then data A ! (c + r * n) else data A ! (r + c * n))"
      using launch_copy_upper [OF nn F(5)] by blast
    have "cuda_copy_triang A upper = Inr (A\<lparr>data := mem'\<rparr>)"
      unfolding cuda_copy_triang_def Let_def using cu fl F L True by simp
    moreover have "elem (A\<lparr>data := mem'\<rparr>) r c =
              (if in_triangle upper False r c then elem A r c else elem A c r)"
      if "r < n" "c < n" for r c
      using el [OF that] F True by (auto simp: elem_def in_triangle_def)
    ultimately show ?thesis using len by blast
  next
    case False
    obtain mem' where L: "launch_1d (to_unsigned (ceildiv (to_int (int n)) NB)) (to_unsigned NB)
                  (copy_simple_kernel_lower (to_size_t (int n))) (data A) = Some mem'"
      and len: "length mem' = n * n"
      and el: "\<And>r c. r < n \<Longrightarrow> c < n \<Longrightarrow> mem' ! (r + c * n) =
                  (if r < c then data A ! (c + r * n) else data A ! (r + c * n))"
      using launch_copy_lower [OF nn F(5)] by blast
    have "cuda_copy_triang A upper = Inr (A\<lparr>data := mem'\<rparr>)"
      unfolding cuda_copy_triang_def Let_def using cu fl F L False by simp
    moreover have "elem (A\<lparr>data := mem'\<rparr>) r c =
              (if in_triangle upper False r c then elem A r c else elem A c r)"
      if "r < n" "c < n" for r c
      using el [OF that] F False by (auto simp: elem_def in_triangle_def)
    ultimately show ?thesis using len by blast
  qed
next
  case C
  have tt: "transpose01 ((transpose01 A)\<lparr>data := m\<rparr>) = A\<lparr>data := m\<rparr>" for m
    by (simp add: transpose01_def)
  show ?thesis
  proof (cases upper)
    case True
    obtain mem' where L: "launch_1d (to_unsigned (ceildiv (to_int (int n)) NB)) (to_unsigned NB)
                  (copy_simple_kernel_lower (to_size_t (int n))) (data A) = Some mem'"
      and len: "length mem' = n * n"
      and el: "\<And>r c. r < n \<Longrightarrow> c < n \<Longrightarrow> mem' ! (r + c * n) =
                  (if r < c then data A ! (c + r * n) else data A ! (r + c * n))"
      using launch_copy_lower [OF nn C(6)] by blast
    have "cuda_copy_triang A upper = Inr (A\<lparr>data := mem'\<rparr>)"
      unfolding cuda_copy_triang_def Let_def using cu fl C L True
      by (simp add: tt) (simp add: transpose01_def)
    moreover have "elem (A\<lparr>data := mem'\<rparr>) r c =
              (if in_triangle upper False r c then elem A r c else elem A c r)"
      if "r < n" "c < n" for r c
      using el [OF that(2,1)] C True by (auto simp: elem_def in_triangle_def add.commute)
    ultimately show ?thesis using len by blast
  next
    case False
    obtain mem' where L: "launch_1d (to_unsigned (ceildiv (to_int (int n)) NB)) (to_unsigned NB)
                  (copy_simple_kernel_upper (to_size_t (int n))) (data A) = Some mem'"
      and len: "length mem' = n * n"
      and el: "\<And>r c. r < n \<Longrightarrow> c < n \<Longrightarrow> mem' ! (r + c * n) =
                  (if c < r then data A ! (c + r * n) else data A ! (r + c * n))"
      using launch_copy_upper [OF nn C(6)] by blast
    have "cuda_copy_triang A upper = Inr (A\<lparr>data := mem'\<rparr>)"
      unfolding cuda_copy_triang_def Let_def using cu fl C L False
      by (simp add: tt) (simp add: transpose01_def)
    moreover have "elem (A\<lparr>data := mem'\<rparr>) r c =
              (if in_triangle upper False r c then elem A r c else elem A c r)"
      if "r < n" "c < n" for r c
      using el [OF that(2,1)] C False by (auto simp: elem_def in_triangle_def add.commute)
    ultimately show ?thesis using len by blast
  qed
qed

lemma to_int_wraps: "to_int (2 ^ 31) = - (2 ^ 31)"
  by (simp add: to_int_def)

lemma rd_negative: "p < 0 \<Longrightarrow> rd mem p = None"
  by (simp add: rd_def)

lemma wr_negative: "p < 0 \<Longrightarrow> wr mem p v = None"
  by (simp add: wr_def)

lemma copy_lower_for_overflow:
  assumes i: "i < n" and K: "K < i" and wrap: "i * n + K = 2 ^ 31"
    and row: "i + K * n < 2 ^ 31" and fits: "i + i * n < 2 ^ 64"
  shows "k \<le> K \<Longrightarrow> length mem = n * n \<Longrightarrow>
         copy_lower_for (int n) (int i) (int (i + k * n)) (to_int (int (i * n + k))) mem = None"
proof (induction "K - k" arbitrary: k mem)
  case 0
  then have kK: "k = K" by simp
  have kn: "K < n" using K i by simp
  have b1: "i + K * n < i + i * n" using K i by simp
  have v4: "i < 2 ^ 64" "i * n < 2 ^ 64" using fits by simp_all
  have e1: "to_size_t (int (i + K * n)) = int (i + K * n)" by (rule size_t_small [OF row])
  have e2: "to_size_t (int i) = int i" by (rule to_size_t_nat [OF v4(1)])
  have e3: "to_size_t (int i * int n) = int (i * n)" using to_size_t_nat [OF v4(2)] by simp
  have e4: "to_size_t (int i + int (i * n)) = int (i + i * n)"
    using to_size_t_nat [OF fits] by simp
  have g: "int (i + K * n) < int (i + i * n)" using b1 by (simp only: of_nat_less_iff)
  have rd: "rd mem (int (i + K * n)) = Some (mem ! (i + K * n))"
    using cell_bound [OF i kn] 0(3) by (intro rd_nat) simp
  have "int (i * n + K) = 2 ^ 31" unfolding wrap by simp
  then have col: "to_int (int (i * n + K)) = - (2 ^ 31)" by (simp only: to_int_wraps)
  have wr: "wr mem (- (2 ^ 31)) v = None" for v by (rule wr_negative) simp
  show ?case unfolding kK
    by (subst copy_lower_for.simps) (simp only: e1 e2 e3 e4 g if_True rd col wr option.case)
next
  case (Suc d)
  then have k: "k < K" by simp
  have ki: "k < i" using k K by simp
  have kn: "k < n" using ki i by simp
  have b1: "i + k * n < i + i * n" using ki i by simp
  have "Suc k * n \<le> K * n" using k by (intro mult_le_mono1) simp
  then have b2: "i + Suc k * n \<le> i + K * n" by simp
  have b3: "i * n + Suc k \<le> i * n + K" using k by simp
  have v1: "i + k * n < 2 ^ 31" using b2 row by simp
  have v2: "i + Suc k * n < 2 ^ 31" using b2 row by (rule le_less_trans)
  have v3: "i * n + k < 2 ^ 31" using k wrap by simp
  have v4: "i < 2 ^ 64" "i * n < 2 ^ 64" using fits by simp_all
  have e1: "to_size_t (int (i + k * n)) = int (i + k * n)" by (rule size_t_small [OF v1])
  have e2: "to_size_t (int i) = int i" by (rule to_size_t_nat [OF v4(1)])
  have e3: "to_size_t (int i * int n) = int (i * n)" using to_size_t_nat [OF v4(2)] by simp
  have e4: "to_size_t (int i + int (i * n)) = int (i + i * n)"
    using to_size_t_nat [OF fits] by simp
  have e5: "to_size_t (int (i + k * n) + int n) = int (i + Suc k * n)"
    using size_t_small [OF v2] by (simp add: algebra_simps)
  have e6: "to_int (int (i + Suc k * n)) = int (i + Suc k * n)" by (rule to_int_nat [OF v2])
  have c0: "to_int (int (i * n + k)) = int (i * n + k)" by (rule to_int_nat [OF v3])
  have c1: "int (i * n + k) + 1 = int (i * n + Suc k)" by simp
  have g: "int (i + k * n) < int (i + i * n)" using b1 by (simp only: of_nat_less_iff)
  have rd: "rd mem (int (i + k * n)) = Some (mem ! (i + k * n))"
    using cell_bound [OF i kn] Suc.prems(2) by (intro rd_nat) simp
  have wr: "wr mem (int (i * n + k)) v = Some (mem[i * n + k := v])" for v
    using cell_bound [OF kn i] Suc.prems(2) by (intro wr_nat) (simp add: add.commute)
  let ?mem = "mem[i * n + k := mem ! (i + k * n)]"
  have "d = K - Suc k" using Suc.hyps(2) by simp
  then have ih: "copy_lower_for (int n) (int i) (int (i + Suc k * n)) (to_int (int (i * n + Suc k))) ?mem
      = None"
    using Suc.hyps(1) [of "Suc k" ?mem] k Suc.prems(2) by simp
  show ?case
    by (subst copy_lower_for.simps)
       (simp only: e1 e2 e3 e4 g if_True rd c0 wr option.case e5 e6 c1 ih)
qed

lemma copy_upper_for_overflow:
  assumes i: "i < n" and K: "K < i" and wrap: "i * n + K = 2 ^ 31"
    and row: "i + K * n < 2 ^ 31" and fits: "i + i * n < 2 ^ 64"
  shows "k \<le> K \<Longrightarrow> length mem = n * n \<Longrightarrow>
         copy_upper_for (int n) (int i) (int (i + k * n)) (to_int (int (i * n + k))) mem = None"
proof (induction "K - k" arbitrary: k mem)
  case 0
  then have kK: "k = K" by simp
  have b1: "i + K * n < i + i * n" using K i by simp
  have v4: "i < 2 ^ 64" "i * n < 2 ^ 64" using fits by simp_all
  have e1: "to_size_t (int (i + K * n)) = int (i + K * n)" by (rule size_t_small [OF row])
  have e2: "to_size_t (int i) = int i" by (rule to_size_t_nat [OF v4(1)])
  have e3: "to_size_t (int i * int n) = int (i * n)" using to_size_t_nat [OF v4(2)] by simp
  have e4: "to_size_t (int i + int (i * n)) = int (i + i * n)"
    using to_size_t_nat [OF fits] by simp
  have g: "int (i + K * n) < int (i + i * n)" using b1 by (simp only: of_nat_less_iff)
  have "int (i * n + K) = 2 ^ 31" unfolding wrap by simp
  then have col: "to_int (int (i * n + K)) = - (2 ^ 31)" by (simp only: to_int_wraps)
  have rd: "rd mem (- (2 ^ 31)) = None" by (rule rd_negative) simp
  show ?case unfolding kK
    by (subst copy_upper_for.simps) (simp only: e1 e2 e3 e4 g if_True col rd option.case)
next
  case (Suc d)
  then have k: "k < K" by simp
  have ki: "k < i" using k K by simp
  have kn: "k < n" using ki i by simp
  have b1: "i + k * n < i + i * n" using ki i by simp
  have "Suc k * n \<le> K * n" using k by (intro mult_le_mono1) simp
  then have b2: "i + Suc k * n \<le> i + K * n" by simp
  have v1: "i + k * n < 2 ^ 31" using b2 row by simp
  have v2: "i + Suc k * n < 2 ^ 31" using b2 row by (rule le_less_trans)
  have v3: "i * n + k < 2 ^ 31" using k wrap by simp
  have v4: "i < 2 ^ 64" "i * n < 2 ^ 64" using fits by simp_all
  have e1: "to_size_t (int (i + k * n)) = int (i + k * n)" by (rule size_t_small [OF v1])
  have e2: "to_size_t (int i) = int i" by (rule to_size_t_nat [OF v4(1)])
  have e3: "to_size_t (int i * int n) = int (i * n)" using to_size_t_nat [OF v4(2)] by simp
  have e4: "to_size_t (int i + int (i * n)) = int (i + i * n)"
    using to_size_t_nat [OF fits] by simp
  have e5: "to_size_t (int (i + k * n) + int n) = int (i + Suc k * n)"
    using size_t_small [OF v2] by (simp add: algebra_simps)
  have e6: "to_int (int (i + Suc k * n)) = int (i + Suc k * n)" by (rule to_int_nat [OF v2])
  have c0: "to_int (int (i * n + k)) = int (i * n + k)" by (rule to_int_nat [OF v3])
  have c1: "int (i * n + k) + 1 = int (i * n + Suc k)" by simp
  have g: "int (i + k * n) < int (i + i * n)" using b1 by (simp only: of_nat_less_iff)
  have rd: "rd mem (int (i * n + k)) = Some (mem ! (i * n + k))"
    using cell_bound [OF kn i] Suc.prems(2) by (intro rd_nat) (simp add: add.commute)
  have wr: "wr mem (int (i + k * n)) v = Some (mem[i + k * n := v])" for v
    using cell_bound [OF i kn] Suc.prems(2) by (intro wr_nat) simp
  let ?mem = "mem[i + k * n := mem ! (i * n + k)]"
  have "d = K - Suc k" using Suc.hyps(2) by simp
  then have ih: "copy_upper_for (int n) (int i) (int (i + Suc k * n)) (to_int (int (i * n + Suc k))) ?mem
      = None"
    using Suc.hyps(1) [of "Suc k" ?mem] k Suc.prems(2) by simp
  show ?case
    by (subst copy_upper_for.simps)
       (simp only: e1 e2 e3 e4 g if_True c0 rd wr option.case e5 e6 c1 ih)
qed

lemma run_threads_None:
  assumes t: "t < T"
    and ok: "\<And>i m. i < t \<Longrightarrow> P m \<Longrightarrow> \<exists>m'. f i m = Some m' \<and> P m'"
    and bad: "\<And>m. P m \<Longrightarrow> f t m = None"
    and P: "P mem"
  shows "run_threads f T mem = None"
proof -
  have pre: "j \<le> t \<Longrightarrow> \<exists>m. run_threads f j mem = Some m \<and> P m" for j
  proof (induction j)
    case 0
    then show ?case using P by simp
  next
    case (Suc j)
    then obtain m where "run_threads f j mem = Some m" "P m" by auto
    then show ?case using ok [of j m] Suc.prems by (auto simp: run_threads_Suc)
  qed
  have at: "run_threads f (Suc t) mem = None"
    using pre [of t] bad by (auto simp: run_threads_Suc)
  have "Suc t \<le> j \<Longrightarrow> run_threads f j mem = None" for j
  proof (induction j)
    case 0
    then show ?case by simp
  next
    case (Suc j)
    then show ?case using at by (cases "Suc t = Suc j") (auto simp: run_threads_Suc)
  qed
  then show ?thesis using t by simp
qed

lemma copy_simple_kernel_lower_overflow:
  assumes i: "i < n" and K: "K < i" and wrap: "i * n + K = 2 ^ 31"
    and row: "i + K * n < 2 ^ 31" and fits: "i + i * n < 2 ^ 64" and len: "length mem = n * n"
    and n: "n < 2 ^ 31"
  shows "copy_simple_kernel_lower (int n) 0 1 (int i) mem = None"
proof -
  have i31: "i < 2 ^ 31" using i n by simp
  have "i * n < 2 ^ 64" using fits by simp
  then have e: "to_size_t (int i * int n) = int (i * n + 0)" using to_size_t_nat [of "i * n"] by simp
  have "copy_simple_kernel_lower (int n) 0 1 (int i) mem
      = copy_lower_for (int n) (int i) (int (i + 0 * n)) (to_int (int (i * n + 0))) mem"
    using i i31 by (simp add: copy_simple_kernel_lower_def Let_def thread_index_0_1 size_t_small e)
  then show ?thesis
    using copy_lower_for_overflow [OF i K wrap row fits, of 0 mem] len by simp
qed

lemma copy_simple_kernel_upper_overflow:
  assumes i: "i < n" and K: "K < i" and wrap: "i * n + K = 2 ^ 31"
    and row: "i + K * n < 2 ^ 31" and fits: "i + i * n < 2 ^ 64" and len: "length mem = n * n"
    and n: "n < 2 ^ 31"
  shows "copy_simple_kernel_upper (int n) 0 1 (int i) mem = None"
proof -
  have i31: "i < 2 ^ 31" using i n by simp
  have "i * n < 2 ^ 64" using fits by simp
  then have e: "to_size_t (int i * int n) = int (i * n + 0)" using to_size_t_nat [of "i * n"] by simp
  have "copy_simple_kernel_upper (int n) 0 1 (int i) mem
      = copy_upper_for (int n) (int i) (int (i + 0 * n)) (to_int (int (i * n + 0))) mem"
    using i i31 by (simp add: copy_simple_kernel_upper_def Let_def thread_index_0_1 size_t_small e)
  then show ?thesis
    using copy_upper_for_overflow [OF i K wrap row fits, of 0 mem] len by simp
qed

text \<open>The launch on a matrix of dimension 46341: thread 46340 leaves the range of \<open>int\<close>
  in iteration 41708.\<close>

lemma index_46340:
  "(46340 :: nat) < 46341" "(41708 :: nat) < 46340" "(46340 :: nat) * 46341 + 41708 = 2 ^ 31"
  "(46340 :: nat) + 41708 * 46341 < 2 ^ 31" "(46340 :: nat) + 46340 * 46341 < 2 ^ 64"
  "(46341 :: nat) < 2 ^ 31"
  by simp_all

lemma index_below_46340:
  fixes i :: nat
  assumes "i < 46340"
  shows "i + i * 46341 < 2 ^ 31" "i < 2 ^ 31"
  using assms by simp_all

lemma launch_copy_lower_46341:
  assumes len: "length mem = 46341 * 46341"
  shows "launch_1d (to_unsigned (ceildiv (to_int (int 46341)) NB)) (to_unsigned NB)
                  (copy_simple_kernel_lower (to_size_t (int 46341))) mem = None"
proof -
  obtain g where g: "to_unsigned (ceildiv (to_int (int 46341)) NB) = int g"
      "to_unsigned NB = int 64" "46341 \<le> g * 64" "g * 64 \<le> 2 ^ 31"
    using launch_grid [OF index_46340(6)] by blast
  let ?f = "\<lambda>i. copy_simple_kernel_lower (int 46341) 0 1 (int i)"
  have launch: "launch_1d (int g) (int 64) (copy_simple_kernel_lower (int 46341)) mem
        = run_threads ?f (g * 64) mem"
    by (rule launch_1d_linear, rule copy_kernel_linear) (use g(4) in simp_all)
  have "run_threads ?f (g * 64) mem = None"
  proof (rule run_threads_None [where t = 46340 and P = "\<lambda>m. length m = 46341 * 46341"])
    show "46340 < g * 64" using g(3) by simp
    show "length mem = 46341 * 46341" by (rule len)
    show "?f 46340 m = None" if "length m = 46341 * 46341" for m :: "'a list"
      by (rule copy_simple_kernel_lower_overflow [OF index_46340(1-5) that index_46340(6)])
    show "\<exists>m'. ?f i m = Some m' \<and> length m' = 46341 * 46341"
      if "i < 46340" "length m = 46341 * 46341" for i and m :: "'a list"
      using copy_simple_kernel_lower_thread [OF index_46340(6) index_below_46340(2) [OF that(1)]
          index_below_46340(1) [OF that(1)] that(2)]
      by blast
  qed
  then show ?thesis
    unfolding g(1,2) size_t_small [OF index_46340(6)] launch .
qed

lemma launch_copy_upper_46341:
  assumes len: "length mem = 46341 * 46341"
  shows "launch_1d (to_unsigned (ceildiv (to_int (int 46341)) NB)) (to_unsigned NB)
                  (copy_simple_kernel_upper (to_size_t (int 46341))) mem = None"
proof -
  obtain g where g: "to_unsigned (ceildiv (to_int (int 46341)) NB) = int g"
      "to_unsigned NB = int 64" "46341 \<le> g * 64" "g * 64 \<le> 2 ^ 31"
    using launch_grid [OF index_46340(6)] by blast
  let ?f = "\<lambda>i. copy_simple_kernel_upper (int 46341) 0 1 (int i)"
  have launch: "launch_1d (int g) (int 64) (copy_simple_kernel_upper (int 46341)) mem
        = run_threads ?f (g * 64) mem"
    by (rule launch_1d_linear, rule copy_kernel_linear) (use g(4) in simp_all)
  have "run_threads ?f (g * 64) mem = None"
  proof (rule run_threads_None [where t = 46340 and P = "\<lambda>m. length m = 46341 * 46341"])
    show "46340 < g * 64" using g(3) by simp
    show "length mem = 46341 * 46341" by (rule len)
    show "?f 46340 m = None" if "length m = 46341 * 46341" for m :: "'a list"
      by (rule copy_simple_kernel_upper_overflow [OF index_46340(1-5) that index_46340(6)])
    show "\<exists>m'. ?f i m = Some m' \<and> length m' = 46341 * 46341"
      if "i < 46340" "length m = 46341 * 46341" for i and m :: "'a list"
      using copy_simple_kernel_upper_thread [OF index_46340(6) index_below_46340(2) [OF that(1)]
          index_below_46340(1) [OF that(1)] that(2)]
      by blast
  qed
  then show ?thesis
    unfolding g(1,2) size_t_small [OF index_46340(6)] launch .
qed

lemma zeros_46341_fields:
  "is_cuda zeros_46341" "dispatch_floating_types (scalar_type zeros_46341)"
  "stride0 zeros_46341 = 1" "size0 zeros_46341 = 46341" "size1 zeros_46341 = 46341"
  "length (data zeros_46341) = 46341 * 46341"
  by (simp_all add: zeros_46341_def dispatch_floating_types_def)

lemma cuda_copy_triang_46341_lower:
  "cuda_copy_triang zeros_46341 False = Inl (KernelUndefined, zeros_46341)"
  unfolding cuda_copy_triang_def Let_def
  using launch_copy_lower_46341 [OF zeros_46341_fields(6)]
  by (simp add: zeros_46341_fields)

lemma cuda_copy_triang_46341_upper:
  "cuda_copy_triang zeros_46341 True = Inl (KernelUndefined, zeros_46341)"
  unfolding cuda_copy_triang_def Let_def
  using launch_copy_upper_46341 [OF zeros_46341_fields(6)]
  by (simp add: zeros_46341_fields)

lemma square_matrix_update:
  "square_matrix A n \<Longrightarrow> length m = n * n \<Longrightarrow> square_matrix (A\<lparr>data := m\<rparr>) n"
  by (simp add: square_matrix_def)

lemma cells_determine_buffer:
  assumes sq: "square_matrix A n" and l1: "length m1 = n * n" and l2: "length m2 = n * n"
    and eq: "\<And>r c. r < n \<Longrightarrow> c < n \<Longrightarrow> elem (A\<lparr>data := m1\<rparr>) r c = elem (A\<lparr>data := m2\<rparr>) r c"
  shows "m1 = m2"
proof (rule nth_equalityI)
  show "length m1 = length m2" using l1 l2 by simp
  fix q assume "q < length m1"
  then have q: "q < n * n" using l1 by simp
  then have n0: "0 < n" by (cases n) simp_all
  have r: "q mod n < n" using n0 by simp
  have c: "q div n < n" using q by (simp add: less_mult_imp_div_less)
  from sq show "m1 ! q = m2 ! q"
  proof (cases rule: square_matrix_cases)
    case F
    then show ?thesis using eq [OF r c] by (simp add: elem_def)
  next
    case C
    then show ?thesis using eq [OF c r] by (simp add: elem_def)
  qed
qed

lemma triangular_root_exists:
  fixes i :: nat
  shows "\<exists>r. r * (r + 1) \<le> 2 * i \<and> 2 * i < (r + 1) * (r + 2)"
proof (induction i)
  case 0
  show ?case by (rule exI [of _ 0]) simp
next
  case (Suc i)
  then obtain r where r: "r * (r + 1) \<le> 2 * i" "2 * i < (r + 1) * (r + 2)" by blast
  show ?case
  proof (cases "2 * Suc i < (r + 1) * (r + 2)")
    case True
    then show ?thesis using r by (intro exI [of _ r]) simp
  next
    case False
    then have "(r + 1) * (r + 2) \<le> 2 * Suc i" by simp
    moreover have "2 * Suc i < (r + 2) * (r + 3)" using r(2) by (simp add: algebra_simps)
    ultimately show ?thesis by (intro exI [of _ "r + 1"]) (simp add: algebra_simps)
  qed
qed

lemma triangular_root_unique:
  fixes i r s :: nat
  assumes "r * (r + 1) \<le> 2 * i" "2 * i < (r + 1) * (r + 2)"
    and "s * (s + 1) \<le> 2 * i" "2 * i < (s + 1) * (s + 2)"
  shows "r = s"
proof (rule ccontr)
  assume "r \<noteq> s"
  then consider "r + 1 \<le> s" | "s + 1 \<le> r" by linarith
  then show False
  proof cases
    case 1
    then have "(r + 1) * (r + 2) \<le> s * (s + 1)" by (intro mult_le_mono) simp_all
    then show False using assms by linarith
  next
    case 2
    then have "(s + 1) * (s + 2) \<le> r * (r + 1)" by (intro mult_le_mono) simp_all
    then show False using assms by linarith
  qed
qed

lemma floor_triangular_root:
  fixes i r :: nat
  assumes lo: "r * (r + 1) \<le> 2 * i" and hi: "2 * i < (r + 1) * (r + 2)"
  shows "\<lfloor>(- 1 + sqrt (real_of_int (int (8 * i + 1)))) / 2\<rfloor> = int r"
proof -
  let ?x = "real (8 * i + 1)"
  have "(2 * r + 1) ^ 2 = 4 * (r * (r + 1)) + 1" by (simp add: power2_eq_square algebra_simps)
  also have "\<dots> \<le> 8 * i + 1" using lo by simp
  finally have "real ((2 * r + 1) ^ 2) \<le> ?x" by (simp only: of_nat_le_iff)
  then have "(real (2 * r + 1))\<^sup>2 \<le> ?x" by simp
  then have l: "real (2 * r + 1) \<le> sqrt ?x" by (rule real_le_rsqrt)
  have "8 * i + 1 < 4 * ((r + 1) * (r + 2)) + 1" using hi by simp
  also have "\<dots> = (2 * r + 3) ^ 2" by (simp add: power2_eq_square algebra_simps)
  finally have "?x < real ((2 * r + 3) ^ 2)" by (simp only: of_nat_less_iff)
  then have "?x < (real (2 * r + 3))\<^sup>2" by simp
  then have u: "sqrt ?x < real (2 * r + 3)" by (intro real_less_lsqrt) simp_all
  have "real_of_int (int r) \<le> (- 1 + sqrt ?x) / 2" using l by simp
  moreover have "(- 1 + sqrt ?x) / 2 < real_of_int (int r) + 1" using u by simp
  ultimately have "\<lfloor>(- 1 + sqrt ?x) / 2\<rfloor> = int r" by (rule floor_unique)
  then show ?thesis by simp
qed

lemma twice_triangular: "2 * (r * (r + 1) div 2) = r * (r + 1)" for r :: nat
  by (rule dvd_mult_div_cancel) simp

lemma tri_index_at_root:
  fixes i r :: nat
  assumes i: "i < 2 ^ 28" and lo: "r * (r + 1) \<le> 2 * i" and hi: "2 * i < (r + 1) * (r + 2)"
  shows "tri_index_row (int i) = Some (int r)"
    and "tri_index_upper (int i) = Some (int r, int (i - r * (r + 1) div 2))"
    and "tri_index_lower (int i) = Some (int (i - r * (r + 1) div 2), int r)"
    and "i - r * (r + 1) div 2 \<le> r"
    and "i = r * (r + 1) div 2 + (i - r * (r + 1) div 2)"
proof -
  have rr: "r * (r + 1) < 2 ^ 29" using lo i by simp
  have "r \<le> r * (r + 1)" by simp
  then have r1: "r + 1 < 2 ^ 31" using rr by simp
  have t: "r * (r + 1) div 2 \<le> i" using lo by simp
  have a1: "to_int (8 * int i) = int (8 * i)" using to_int_nat [of "8 * i"] i by simp
  have a0: "int (8 * i) + 1 = int (8 * i + 1)" by simp
  have a2: "to_int (int (8 * i) + 1) = int (8 * i + 1)"
    unfolding a0 using i by (intro to_int_nat) simp
  have fl: "\<lfloor>(- 1 + sqrt (real_of_int (int (8 * i + 1)))) / 2\<rfloor> = int r"
    by (rule floor_triangular_root [OF lo hi])
  have "1 \<le> sqrt (real_of_int (int (8 * i + 1)))" by simp
  then have nn: "0 \<le> (- 1 + sqrt (real_of_int (int (8 * i + 1)))) / 2" by simp
  have conv: "double_to_int ((- 1 + sqrt (real_of_int (int (8 * i + 1)))) / 2) = int r"
    unfolding double_to_int_def using nn fl to_int_nat [of r] r1 by simp
  show row: "tri_index_row (int i) = Some (int r)"
    unfolding tri_index_row_def Let_def a1 a2 conv by simp
  have b0: "int r + 1 = int (r + 1)" by simp
  have b1: "to_int (int r + 1) = int (r + 1)" unfolding b0 by (rule to_int_nat [OF r1])
  have rr31: "r * (r + 1) < 2 ^ 31" using rr by simp
  have b2: "to_int (int r * int (r + 1)) = int (r * (r + 1))"
    unfolding of_nat_mult [symmetric] by (rule to_int_nat [OF rr31])
  have b3: "int (r * (r + 1)) sdiv 2 = int (r * (r + 1) div 2)"
    by (simp add: sdiv_nonneg zdiv_int)
  have b4: "int i - int (r * (r + 1) div 2) = int (i - r * (r + 1) div 2)"
    using t by simp
  have b5: "to_int (int (i - r * (r + 1) div 2)) = int (i - r * (r + 1) div 2)"
    using i by (intro to_int_nat) simp
  show "tri_index_upper (int i) = Some (int r, int (i - r * (r + 1) div 2))"
    unfolding tri_index_upper_def row option.case b1 b2 b3 b4 b5 ..
  show "tri_index_lower (int i) = Some (int (i - r * (r + 1) div 2), int r)"
    unfolding tri_index_lower_def row option.case b1 b2 b3 b4 b5 ..
  show "i - r * (r + 1) div 2 \<le> r"
  proof -
    define t where "t = r * (r + 1) div 2"
    have tt: "2 * t = r * (r + 1)" unfolding t_def by (rule twice_triangular)
    have "2 * i < r * (r + 1) + 2 * (r + 1)" using hi by (simp add: algebra_simps)
    then have "2 * i < 2 * t + 2 * (r + 1)" by (simp only: tt)
    then have "i - t \<le> r" by arith
    then show ?thesis unfolding t_def .
  qed
  show "i = r * (r + 1) div 2 + (i - r * (r + 1) div 2)" using t by simp
qed

lemma cell_index:
  fixes r c n :: nat
  assumes "c \<le> r" "r < n"
  shows "r * (r + 1) \<le> 2 * (r * (r + 1) div 2 + c)"
    and "2 * (r * (r + 1) div 2 + c) < (r + 1) * (r + 2)"
    and "r * (r + 1) div 2 + c < n * (n + 1) div 2"
proof -
  have e: "2 * (r * (r + 1) div 2 + c) = r * (r + 1) + 2 * c"
    using twice_triangular [of r] by simp
  show "r * (r + 1) \<le> 2 * (r * (r + 1) div 2 + c)" unfolding e by simp
  show u: "2 * (r * (r + 1) div 2 + c) < (r + 1) * (r + 2)"
    unfolding e using assms(1) by (simp add: algebra_simps)
  have "(r + 1) * (r + 2) \<le> n * (n + 1)" using assms(2) by (intro mult_le_mono) simp_all
  then have "2 * (r * (r + 1) div 2 + c) < 2 * (n * (n + 1) div 2)"
    using u by (simp only: twice_triangular)
  then have "0 < (2 :: nat) \<and> r * (r + 1) div 2 + c < n * (n + 1) div 2"
    by (simp only: mult_less_cancel1)
  then show "r * (r + 1) div 2 + c < n * (n + 1) div 2" by (rule conjunct2)
qed

lemma root_below:
  fixes i r n :: nat
  assumes "i < n * (n + 1) div 2" "r * (r + 1) \<le> 2 * i"
  shows "r < n"
proof (rule ccontr)
  assume "\<not> r < n"
  then have "n * (n + 1) \<le> r * (r + 1)" by (intro mult_le_mono) simp_all
  moreover have "2 * i < 2 * (n * (n + 1) div 2)"
    using assms(1) by (simp only: mult_less_cancel1) simp
  ultimately show False using assms(2) by (simp only: twice_triangular)
qed

lemma tri_index_cells:
  fixes n :: nat
  assumes T: "n * (n + 1) div 2 \<le> 2 ^ 28" and i: "i < n * (n + 1) div 2"
  shows "\<exists>r c. c \<le> r \<and> r < n \<and> i = r * (r + 1) div 2 + c \<and>
    tri_index_upper (int i) = Some (int r, int c) \<and>
    tri_index_lower (int i) = Some (int c, int r) \<and>
    \<lfloor>(- 1 + sqrt (real_of_int (int (8 * i + 1)))) / 2\<rfloor> = int r"
proof -
  obtain r where r: "r * (r + 1) \<le> 2 * i" "2 * i < (r + 1) * (r + 2)"
    using triangular_root_exists by blast
  have i28: "i < 2 ^ 28" using i T by simp
  note at = tri_index_at_root [OF i28 r]
  show ?thesis
    using at(2-5) root_below [OF i r(1)] floor_triangular_root [OF r]
    by (intro exI [of _ r] exI [of _ "i - r * (r + 1) div 2"]) simp
qed

lemma tri_index_of_cell:
  fixes n :: nat
  assumes T: "n * (n + 1) div 2 \<le> 2 ^ 28" and c: "c \<le> r" and r: "r < n"
  shows "r * (r + 1) div 2 + c < n * (n + 1) div 2"
    and "tri_index_upper (int (r * (r + 1) div 2 + c)) = Some (int r, int c)"
    and "tri_index_lower (int (r * (r + 1) div 2 + c)) = Some (int c, int r)"
proof -
  note ci = cell_index [OF c r]
  show lt: "r * (r + 1) div 2 + c < n * (n + 1) div 2" by (rule ci(3))
  have i28: "r * (r + 1) div 2 + c < 2 ^ 28" using lt T by simp
  note at = tri_index_at_root [OF i28 ci(1,2)]
  show "tri_index_upper (int (r * (r + 1) div 2 + c)) = Some (int r, int c)"
    using at(2) by simp
  show "tri_index_lower (int (r * (r + 1) div 2 + c)) = Some (int c, int r)"
    using at(3) by simp
qed

lemma tri_index_upper_bij:
  fixes n :: nat
  assumes T: "n * (n + 1) div 2 \<le> 2 ^ 28"
  shows "bij_betw (\<lambda>i. tri_index_upper (int i)) {..<n * (n + 1) div 2}
           {Some (int r, int c) | r c. c \<le> r \<and> r < n}"
proof (rule bij_betw_imageI)
  show "inj_on (\<lambda>i. tri_index_upper (int i)) {..<n * (n + 1) div 2}"
  proof (rule inj_onI)
    fix i j assume i: "i \<in> {..<n * (n + 1) div 2}" and j: "j \<in> {..<n * (n + 1) div 2}"
      and eq: "tri_index_upper (int i) = tri_index_upper (int j)"
    from i have "i < n * (n + 1) div 2" by simp
    from tri_index_cells [OF T this]
    obtain r c where a: "i = r * (r + 1) div 2 + c" "tri_index_upper (int i) = Some (int r, int c)"
      by blast
    from j have "j < n * (n + 1) div 2" by simp
    from tri_index_cells [OF T this]
    obtain r' c' where b: "j = r' * (r' + 1) div 2 + c'"
        "tri_index_upper (int j) = Some (int r', int c')"
      by blast
    from eq a(2) b(2) have "r = r'" "c = c'" by simp_all
    then show "i = j" using a(1) b(1) by simp
  qed
  show "(\<lambda>i. tri_index_upper (int i)) ` {..<n * (n + 1) div 2}
           = {Some (int r, int c) | r c. c \<le> r \<and> r < n}"
  proof (intro set_eqI iffI)
    fix x assume "x \<in> (\<lambda>i. tri_index_upper (int i)) ` {..<n * (n + 1) div 2}"
    then obtain i where i: "i < n * (n + 1) div 2" "x = tri_index_upper (int i)" by auto
    from tri_index_cells [OF T i(1)]
    obtain r c where "c \<le> r" "r < n" "tri_index_upper (int i) = Some (int r, int c)" by blast
    then show "x \<in> {Some (int r, int c) | r c. c \<le> r \<and> r < n}" using i(2) by blast
  next
    fix x assume "x \<in> {Some (int r, int c) | r c. c \<le> r \<and> r < n}"
    then obtain r c where rc: "c \<le> r" "r < n" "x = Some (int r, int c)" by auto
    from tri_index_of_cell [OF T rc(1,2)] rc(3)
    show "x \<in> (\<lambda>i. tri_index_upper (int i)) ` {..<n * (n + 1) div 2}"
      by (intro image_eqI [of _ _ "r * (r + 1) div 2 + c"]) simp_all
  qed
qed

lemma tri_index_lower_bij:
  fixes n :: nat
  assumes T: "n * (n + 1) div 2 \<le> 2 ^ 28"
  shows "bij_betw (\<lambda>i. tri_index_lower (int i)) {..<n * (n + 1) div 2}
           {Some (int c, int r) | r c. c \<le> r \<and> r < n}"
proof (rule bij_betw_imageI)
  show "inj_on (\<lambda>i. tri_index_lower (int i)) {..<n * (n + 1) div 2}"
  proof (rule inj_onI)
    fix i j assume i: "i \<in> {..<n * (n + 1) div 2}" and j: "j \<in> {..<n * (n + 1) div 2}"
      and eq: "tri_index_lower (int i) = tri_index_lower (int j)"
    from i have "i < n * (n + 1) div 2" by simp
    from tri_index_cells [OF T this]
    obtain r c where a: "i = r * (r + 1) div 2 + c" "tri_index_lower (int i) = Some (int c, int r)"
      by blast
    from j have "j < n * (n + 1) div 2" by simp
    from tri_index_cells [OF T this]
    obtain r' c' where b: "j = r' * (r' + 1) div 2 + c'"
        "tri_index_lower (int j) = Some (int c', int r')"
      by blast
    from eq a(2) b(2) have "r = r'" "c = c'" by simp_all
    then show "i = j" using a(1) b(1) by simp
  qed
  show "(\<lambda>i. tri_index_lower (int i)) ` {..<n * (n + 1) div 2}
           = {Some (int c, int r) | r c. c \<le> r \<and> r < n}"
  proof (intro set_eqI iffI)
    fix x assume "x \<in> (\<lambda>i. tri_index_lower (int i)) ` {..<n * (n + 1) div 2}"
    then obtain i where i: "i < n * (n + 1) div 2" "x = tri_index_lower (int i)" by auto
    from tri_index_cells [OF T i(1)]
    obtain r c where "c \<le> r" "r < n" "tri_index_lower (int i) = Some (int c, int r)" by blast
    then show "x \<in> {Some (int c, int r) | r c. c \<le> r \<and> r < n}" using i(2) by blast
  next
    fix x assume "x \<in> {Some (int c, int r) | r c. c \<le> r \<and> r < n}"
    then obtain r c where rc: "c \<le> r" "r < n" "x = Some (int c, int r)" by auto
    from tri_index_of_cell [OF T rc(1,2)] rc(3)
    show "x \<in> (\<lambda>i. tri_index_lower (int i)) ` {..<n * (n + 1) div 2}"
      by (intro image_eqI [of _ _ "r * (r + 1) div 2 + c"]) simp_all
  qed
qed

lemma run_steps_Nil [simp]: "run_steps W [] m = m"
  by (simp add: run_steps_def)

lemma run_steps_Cons:
  "run_steps W (x # xs) m = run_steps W xs (case m of None \<Rightarrow> None | Some s \<Rightarrow> W x s)"
  by (simp add: run_steps_def)


lemma run_steps_None [simp]: "run_steps W xs None = None"
  by (induction xs) (simp_all add: run_steps_Cons)



































































section \<open>The claims\<close>

text \<open>
  Claim C1, as far as the code follows it, and where it stops. For a square matrix of
  dimension \<open>n\<close> with \<open>n * n \<le> 2\<^sup>3\<^sup>1\<close> (that is, \<open>n \<le> 46340\<close>), on a CUDA device, of a floating
  element type, stored contiguously by columns or by rows, \<^verbatim>\<open>cuda_copy_triang\<close> returns a
  matrix that equals its transpose, in which every element of the requested triangle
  (diagonal included) is as in the input and is also the value of its mirror position.
  For dimension 46341 the positions \<^verbatim>\<open>col_pos\<close>, of type \<^verbatim>\<open>int\<close>, leave the range of the type
  in thread 46340, and the kernel accesses memory outside the buffer.
\<close>

theorem mirror_triangle_symmetric_up_to_46340:
  assumes "is_cuda A" and "dispatch_floating_types (scalar_type A)"
    and "square_matrix A n" and "n * n \<le> 2 ^ 31"
  shows "(\<exists>A'. cuda_copy_triang A upper = Inr A' \<and>
            (\<forall>r<n. \<forall>c<n. elem A' r c = elem A' c r \<and>
               (in_triangle upper False r c \<longrightarrow>
                  elem A' r c = elem A r c \<and> elem A' c r = elem A r c)))
         \<and> cuda_copy_triang zeros_46341 False = Inl (KernelUndefined, zeros_46341)"
proof
  obtain mem' where r: "cuda_copy_triang A upper = Inr (A\<lparr>data := mem'\<rparr>)"
    and el: "\<And>r c. r < n \<Longrightarrow> c < n \<Longrightarrow> elem (A\<lparr>data := mem'\<rparr>) r c =
              (if in_triangle upper False r c then elem A r c else elem A c r)"
    using cuda_copy_triang_square [OF assms, of upper] by blast
  have "elem (A\<lparr>data := mem'\<rparr>) r c = elem (A\<lparr>data := mem'\<rparr>) c r \<and>
               (in_triangle upper False r c \<longrightarrow>
                  elem (A\<lparr>data := mem'\<rparr>) r c = elem A r c
                  \<and> elem (A\<lparr>data := mem'\<rparr>) c r = elem A r c)"
    if "r < n" "c < n" for r c
    unfolding el [OF that] el [OF that(2,1)]
    by (cases "r = c") (auto simp: in_triangle_def)
  then show "\<exists>A'. cuda_copy_triang A upper = Inr A' \<and>
            (\<forall>r<n. \<forall>c<n. elem A' r c = elem A' c r \<and>
               (in_triangle upper False r c \<longrightarrow>
                  elem A' r c = elem A r c \<and> elem A' c r = elem A r c))"
    using r by blast
  show "cuda_copy_triang zeros_46341 False = Inl (KernelUndefined, zeros_46341)"
    by (rule cuda_copy_triang_46341_lower)
qed

theorem mirror_triangle_symmetric_up_to_46340_witness:
  "is_cuda ones_3x3 \<and> dispatch_floating_types (scalar_type ones_3x3) \<and> square_matrix ones_3x3 3
   \<and> (3 :: nat) * 3 \<le> 2 ^ 31
   \<and> (\<exists>A'. cuda_copy_triang ones_3x3 True = Inr A' \<and>
            (\<forall>r<3. \<forall>c<3. elem A' r c = elem A' c r \<and>
               (in_triangle True False r c \<longrightarrow>
                  elem A' r c = elem ones_3x3 r c \<and> elem A' c r = elem ones_3x3 r c)))"
proof -
  have h: "is_cuda ones_3x3" "dispatch_floating_types (scalar_type ones_3x3)"
    "square_matrix ones_3x3 3" "(3 :: nat) * 3 \<le> 2 ^ 31"
    by (simp_all add: ones_3x3_def dispatch_floating_types_def square_matrix_def)
  from mirror_triangle_symmetric_up_to_46340 [OF h, of True] h show ?thesis by simp
qed

text \<open>
  Claim C2. For a square matrix \<open>A\<close> of dimension \<open>n\<close> on a CUDA device, with a floating
  element type, stored contiguously by columns or by rows, \<^verbatim>\<open>cuda_mul_triang\<close> returns \<open>A\<close>
  with every element of the designated triangle multiplied by the converted multiplier:
  the diagonal is part of the triangle exactly when \<open>preserve_diag\<close> is false, and every
  other element is as before. The all-ones matrix of dimension 3, lower triangle,
  diagonal not preserved, multiplier 2, becomes 2 on and below the diagonal and stays 1
  above it. (The dimension fits the C type \<^verbatim>\<open>int\<close>, in which the host computes the grid.)
\<close>

theorem scale_triangle_scales_half:
  assumes "is_cuda A" and "dispatch_floating_types (scalar_type A)"
    and "square_matrix A n" and "n < 2 ^ 31"
  shows "(\<exists>mem'. cuda_mul_triang cast A upper preserve_diag multiplier = Inr (A\<lparr>data := mem'\<rparr>) \<and>
            length mem' = n * n \<and>
            (\<forall>r<n. \<forall>c<n. elem (A\<lparr>data := mem'\<rparr>) r c =
               (if in_triangle upper preserve_diag r c then elem A r c * cast multiplier
                else elem A r c)))
         \<and> cuda_mul_triang (\<lambda>x. x) ones_3x3 False False 2
             = Inr (ones_3x3\<lparr>data := [2, 1, 1, 2, 2, 1, 2, 2, 2]\<rparr>)"
proof
  show "\<exists>mem'. cuda_mul_triang cast A upper preserve_diag multiplier = Inr (A\<lparr>data := mem'\<rparr>) \<and>
            length mem' = n * n \<and>
            (\<forall>r<n. \<forall>c<n. elem (A\<lparr>data := mem'\<rparr>) r c =
               (if in_triangle upper preserve_diag r c then elem A r c * cast multiplier
                else elem A r c))"
    using assms by (rule cuda_mul_triang_square)
  show "cuda_mul_triang (\<lambda>x. x) ones_3x3 False False 2
             = Inr (ones_3x3\<lparr>data := [2, 1, 1, 2, 2, 1, 2, 2, 2]\<rparr>)"
    by code_simp
qed

theorem scale_triangle_scales_half_witness:
  "is_cuda ones_3x3 \<and> dispatch_floating_types (scalar_type ones_3x3) \<and> square_matrix ones_3x3 3
   \<and> (3 :: nat) < 2 ^ 31
   \<and> (\<exists>mem'. cuda_mul_triang (\<lambda>x. x) ones_3x3 True True 5 = Inr (ones_3x3\<lparr>data := mem'\<rparr>) \<and>
            length mem' = 3 * 3 \<and>
            (\<forall>r<3. \<forall>c<3. elem (ones_3x3\<lparr>data := mem'\<rparr>) r c =
               (if in_triangle True True r c then elem ones_3x3 r c * 5 else elem ones_3x3 r c)))"
proof -
  have h: "is_cuda ones_3x3" "dispatch_floating_types (scalar_type ones_3x3)"
    "square_matrix ones_3x3 3" "(3 :: nat) < 2 ^ 31"
    by (simp_all add: ones_3x3_def dispatch_floating_types_def square_matrix_def)
  from scale_triangle_scales_half [OF h, of "\<lambda>x. x" True True 5] h show ?thesis by simp
qed



text \<open>
  Claim C4. Let a triangular grid of side \<open>n\<close> have at most \<open>2\<^sup>2\<^sup>8\<close> cells, so that
  \<^verbatim>\<open>8*linear_index + 1\<close> stays in the range of \<^verbatim>\<open>int\<close>. For every linear index \<open>i\<close> below
  \<open>n * (n + 1) / 2\<close> the row computed by the index mapper is
  \<open>\<lfloor>(-1 + sqrt (8 * i + 1)) / 2\<rfloor>\<close> and the column offset is \<open>i - row * (row + 1) / 2\<close>;
  \<^verbatim>\<open>tri_index_upper\<close> returns the pair (row, offset) and \<^verbatim>\<open>tri_index_lower\<close> the pair
  (offset, row). Enumerating the indices below \<open>n * (n + 1) / 2\<close> visits every cell with
  offset \<open>\<le>\<close> row \<open><\<close> \<open>n\<close> exactly once: each variant is a bijection between the indices and
  the cells.
\<close>

theorem index_mapper_covers_triangle:
  fixes n :: nat
  assumes "n * (n + 1) div 2 \<le> 2 ^ 28"
  shows "(\<forall>i < n * (n + 1) div 2.
            (let row = \<lfloor>(- 1 + sqrt (real (8 * i + 1))) / 2\<rfloor>;
                 col_offset = int i - row * (row + 1) div 2
             in tri_index_upper (int i) = Some (row, col_offset)
                \<and> tri_index_lower (int i) = Some (col_offset, row)))
         \<and> bij_betw (\<lambda>i. tri_index_upper (int i)) {..<n * (n + 1) div 2}
               {Some (int r, int c) | r c. c \<le> r \<and> r < n}
         \<and> bij_betw (\<lambda>i. tri_index_lower (int i)) {..<n * (n + 1) div 2}
               {Some (int c, int r) | r c. c \<le> r \<and> r < n}"
proof (intro conjI allI impI)
  fix i assume i: "i < n * (n + 1) div 2"
  from tri_index_cells [OF assms i]
  obtain r c where rc: "i = r * (r + 1) div 2 + c"
    "tri_index_upper (int i) = Some (int r, int c)"
    "tri_index_lower (int i) = Some (int c, int r)"
    "\<lfloor>(- 1 + sqrt (real_of_int (int (8 * i + 1)))) / 2\<rfloor> = int r"
    by blast
  have row: "\<lfloor>(- 1 + sqrt (real (8 * i + 1))) / 2\<rfloor> = int r" using rc(4) by simp
  have "int r * (int r + 1) div 2 = int (r * (r + 1) div 2)"
    by (simp add: zdiv_int algebra_simps)
  then have off: "int i - int r * (int r + 1) div 2 = int c" using rc(1) by simp
  show "let row = \<lfloor>(- 1 + sqrt (real (8 * i + 1))) / 2\<rfloor>;
            col_offset = int i - row * (row + 1) div 2
        in tri_index_upper (int i) = Some (row, col_offset)
           \<and> tri_index_lower (int i) = Some (col_offset, row)"
    unfolding Let_def row off using rc(2,3) by simp
next
  show "bij_betw (\<lambda>i. tri_index_upper (int i)) {..<n * (n + 1) div 2}
               {Some (int r, int c) | r c. c \<le> r \<and> r < n}"
    by (rule tri_index_upper_bij [OF assms])
  show "bij_betw (\<lambda>i. tri_index_lower (int i)) {..<n * (n + 1) div 2}
               {Some (int c, int r) | r c. c \<le> r \<and> r < n}"
    by (rule tri_index_lower_bij [OF assms])
qed

theorem index_mapper_covers_triangle_witness:
  "(3 :: nat) * (3 + 1) div 2 \<le> 2 ^ 28
   \<and> bij_betw (\<lambda>i. tri_index_upper (int i)) {..<6}
         {Some (int r, int c) | r c. c \<le> r \<and> r < 3}
   \<and> bij_betw (\<lambda>i. tri_index_lower (int i)) {..<6}
         {Some (int c, int r) | r c. c \<le> r \<and> r < 3}"
proof -
  have h: "(3 :: nat) * (3 + 1) div 2 \<le> 2 ^ 28" by simp
  have six: "(3 :: nat) * (3 + 1) div 2 = 6" by simp
  from index_mapper_covers_triangle [OF h] h show ?thesis unfolding six by blast
qed

text \<open>
  Claim C5 does not hold of the code. Neither \<^verbatim>\<open>cuda_copy_triang\<close> nor \<^verbatim>\<open>cuda_mul_triang\<close>
  compares the two dimensions of the matrix: each raises before the launch exactly when
  the matrix is not on a CUDA device or its element type is not a floating type. For the
  matrix with three rows and two columns, stored by columns, both launch their kernel
  with size 3, and the kernel leaves the buffer of six elements: there is no shape error,
  and the behaviour of the call is undefined.
\<close>

theorem triangle_ops_no_shape_check:
  "((\<exists>e A'. cuda_copy_triang A upper = Inl (e, A') \<and> raised_before_launch e)
      \<longleftrightarrow> (\<not> is_cuda A \<or> \<not> dispatch_floating_types (scalar_type A)))
   \<and> ((\<exists>e A'. cuda_mul_triang cast A upper preserve_diag multiplier = Inl (e, A')
              \<and> raised_before_launch e)
      \<longleftrightarrow> (\<not> is_cuda A \<or> \<not> dispatch_floating_types (scalar_type A)))
   \<and> size0 matrix_3x2 \<noteq> size1 matrix_3x2
   \<and> cuda_copy_triang matrix_3x2 True = Inl (KernelUndefined, matrix_3x2)
   \<and> cuda_copy_triang matrix_3x2 False = Inl (KernelUndefined, matrix_3x2)
   \<and> cuda_mul_triang (\<lambda>x. x) matrix_3x2 True False 2 = Inl (KernelUndefined, matrix_3x2)
   \<and> cuda_mul_triang (\<lambda>x. x) matrix_3x2 False False 2 = Inl (KernelUndefined, matrix_3x2)
   \<and> \<not> raised_before_launch KernelUndefined"
proof -
  have 1: "(\<exists>e A'. cuda_copy_triang A upper = Inl (e, A') \<and> raised_before_launch e)
      \<longleftrightarrow> (\<not> is_cuda A \<or> \<not> dispatch_floating_types (scalar_type A))"
    unfolding cuda_copy_triang_def Let_def
    by (auto simp: transpose01_def split: option.splits)
  have 2: "(\<exists>e A'. cuda_mul_triang cast A upper preserve_diag multiplier = Inl (e, A')
              \<and> raised_before_launch e)
      \<longleftrightarrow> (\<not> is_cuda A \<or> \<not> dispatch_floating_types (scalar_type A))"
    unfolding cuda_mul_triang_def Let_def
    by (auto split: option.splits)
  have 3: "size0 matrix_3x2 \<noteq> size1 matrix_3x2
     \<and> cuda_copy_triang matrix_3x2 True = Inl (KernelUndefined, matrix_3x2)
     \<and> cuda_copy_triang matrix_3x2 False = Inl (KernelUndefined, matrix_3x2)
     \<and> cuda_mul_triang (\<lambda>x. x) matrix_3x2 True False 2 = Inl (KernelUndefined, matrix_3x2)
     \<and> cuda_mul_triang (\<lambda>x. x) matrix_3x2 False False 2 = Inl (KernelUndefined, matrix_3x2)
     \<and> \<not> raised_before_launch KernelUndefined"
    by code_simp
  show ?thesis using 1 2 3 by blast
qed

theorem triangle_ops_no_shape_check_witness:
  "is_cuda matrix_3x2 \<and> dispatch_floating_types (scalar_type matrix_3x2)
   \<and> \<not> (\<exists>e A'. cuda_copy_triang matrix_3x2 True = Inl (e, A') \<and> raised_before_launch e)
   \<and> \<not> (\<exists>e A'. cuda_mul_triang (\<lambda>x. x) matrix_3x2 True False 2 = Inl (e, A')
              \<and> raised_before_launch e)"
  using triangle_ops_no_shape_check [of matrix_3x2 True "\<lambda>x. x" False 2]
  by (simp add: matrix_3x2_def dispatch_floating_types_def)

text \<open>
  Claim C6 does not hold of the code. \<^verbatim>\<open>cuda_vec_mul_triang\<close> does not compare the length
  of the vector with the dimension of the matrix: it raises before the launch exactly
  when the matrix or the vector is not on a CUDA device, when the two are on different
  devices, when the element type of the matrix is not a floating type, or when the vector
  has another element type. With a matrix of dimension 2 and a vector of length 1 it
  reaches the launch.
\<close>

theorem vec_mul_triang_no_length_check:
  "((\<exists>e. cuda_vec_mul_triang A v upper side = Inl e) \<longleftrightarrow>
      (\<not> is_cuda A \<or> \<not> vis_cuda v \<or> vdevice v \<noteq> device A
       \<or> \<not> dispatch_floating_types (scalar_type A) \<or> vscalar_type v \<noteq> scalar_type A))
   \<and> vsize0 vector_1 \<noteq> size0 matrix_2x2
   \<and> cuda_vec_mul_triang matrix_2x2 vector_1 True 0
       = Inr \<lparr>grid_x = 1, grid_y = 1, block_x = 32, block_y = 32, mat_stride = 1\<rparr>"
proof -
  have 1: "(\<exists>e. cuda_vec_mul_triang A v upper side = Inl e) \<longleftrightarrow>
      (\<not> is_cuda A \<or> \<not> vis_cuda v \<or> vdevice v \<noteq> device A
       \<or> \<not> dispatch_floating_types (scalar_type A) \<or> vscalar_type v \<noteq> scalar_type A)"
    unfolding cuda_vec_mul_triang_def Let_def by auto
  have 2: "vsize0 vector_1 \<noteq> size0 matrix_2x2
     \<and> cuda_vec_mul_triang matrix_2x2 vector_1 True 0
         = Inr \<lparr>grid_x = 1, grid_y = 1, block_x = 32, block_y = 32, mat_stride = 1\<rparr>"
    by code_simp
  show ?thesis using 1 2 by blast
qed

theorem vec_mul_triang_no_length_check_witness:
  "is_cuda matrix_2x2 \<and> vis_cuda vector_1 \<and> vdevice vector_1 = device matrix_2x2
   \<and> dispatch_floating_types (scalar_type matrix_2x2)
   \<and> vscalar_type vector_1 = scalar_type matrix_2x2
   \<and> \<not> (\<exists>e. cuda_vec_mul_triang matrix_2x2 vector_1 True 0 = Inl e)"
  using vec_mul_triang_no_length_check [of matrix_2x2 vector_1 True 0]
  by (simp add: matrix_2x2_def vector_1_def dispatch_floating_types_def)

text \<open>
  Claim C7 at an input on which the code departs from it. \<^verbatim>\<open>cuda_transpose\<close> with the input
  on device 0 and the output on device 1 raises nothing and launches the kernel, whereas
  \<^verbatim>\<open>cuda_vec_mul_triang\<close> compares the devices of its two arguments.
\<close>

theorem transpose_other_device_accepted:
  "is_cuda matrix_2x3 \<and> is_cuda (zeros_3x2\<lparr>device := 1\<rparr>)
   \<and> device matrix_2x3 \<noteq> device (zeros_3x2\<lparr>device := 1\<rparr>)
   \<and> cuda_transpose (\<lambda>_. 0) matrix_2x3 (zeros_3x2\<lparr>device := 1\<rparr>)
       = Inr (zeros_3x2\<lparr>device := 1, data := [1, 4, 2, 5, 3, 6]\<rparr>)"
  by code_simp

theorem transpose_other_device_accepted_witness:
  "\<exists>out. cuda_transpose (\<lambda>_. 0) matrix_2x3 (zeros_3x2\<lparr>device := 1\<rparr>) = Inr out"
  using transpose_other_device_accepted by simp

text \<open>
  Claim C8. When the dimensions of the output are not the swapped dimensions of the
  input, \<^verbatim>\<open>cuda_transpose\<close> raises before the launch and the output tensor is as it was,
  buffer included. The exception is the one about sizes whenever both tensors are on a
  CUDA device (the two device checks come first in the source).
\<close>

theorem transpose_shape_mismatch_fails:
  assumes "size0 input \<noteq> size1 output \<or> size1 input \<noteq> size0 output"
  shows "(\<exists>e. cuda_transpose uninit input output = Inl (e, output) \<and> raised_before_launch e)
         \<and> (is_cuda input \<and> is_cuda output
              \<longrightarrow> cuda_transpose uninit input output = Inl (MustBeOfSameSize, output))"
  using assms unfolding cuda_transpose_def by auto

theorem transpose_shape_mismatch_fails_witness:
  "size0 matrix_2x3 \<noteq> size1 ones_3x3
   \<and> cuda_transpose (\<lambda>_. 0) matrix_2x3 ones_3x3 = Inl (MustBeOfSameSize, ones_3x3)"
proof -
  have h: "size0 matrix_2x3 \<noteq> size1 ones_3x3 \<or> size1 matrix_2x3 \<noteq> size0 ones_3x3"
    by (simp add: matrix_2x3_def ones_3x3_def)
  from transpose_shape_mismatch_fails [OF h, of "\<lambda>_. 0"] h show ?thesis
    by (simp add: matrix_2x3_def ones_3x3_def)
qed

text \<open>
  Claim C10, as far as the code follows it, and where it stops. For a square matrix of
  dimension \<open>n\<close> with \<open>n * n \<le> 2\<^sup>3\<^sup>1\<close>, on a CUDA device, of a floating element type, stored
  contiguously, a second call of \<^verbatim>\<open>cuda_copy_triang\<close> with the same triangle returns the
  result of the first call unchanged. For dimension 46341 already the first call, here
  for the upper triangle, accesses memory outside the buffer.
\<close>

theorem mirror_triangle_idempotent_up_to_46340:
  assumes "is_cuda A" and "dispatch_floating_types (scalar_type A)"
    and "square_matrix A n" and "n * n \<le> 2 ^ 31"
  shows "(\<exists>A'. cuda_copy_triang A upper = Inr A' \<and> cuda_copy_triang A' upper = Inr A')
         \<and> cuda_copy_triang zeros_46341 True = Inl (KernelUndefined, zeros_46341)"
proof
  obtain mem' where r: "cuda_copy_triang A upper = Inr (A\<lparr>data := mem'\<rparr>)"
    and len: "length mem' = n * n"
    and el: "\<And>r c. r < n \<Longrightarrow> c < n \<Longrightarrow> elem (A\<lparr>data := mem'\<rparr>) r c =
              (if in_triangle upper False r c then elem A r c else elem A c r)"
    using cuda_copy_triang_square [OF assms, of upper] by blast
  let ?A' = "A\<lparr>data := mem'\<rparr>"
  have sq': "square_matrix ?A' n" using assms(3) len by (rule square_matrix_update)
  have cu': "is_cuda ?A'" "dispatch_floating_types (scalar_type ?A')" using assms(1,2) by simp_all
  obtain mem'' where r': "cuda_copy_triang ?A' upper = Inr (?A'\<lparr>data := mem''\<rparr>)"
    and len': "length mem'' = n * n"
    and el': "\<And>r c. r < n \<Longrightarrow> c < n \<Longrightarrow> elem (?A'\<lparr>data := mem''\<rparr>) r c =
              (if in_triangle upper False r c then elem ?A' r c else elem ?A' c r)"
    using cuda_copy_triang_square [OF cu' sq' assms(4), of upper] by blast
  have "elem (A\<lparr>data := mem''\<rparr>) r c = elem (A\<lparr>data := mem'\<rparr>) r c" if "r < n" "c < n" for r c
  proof -
    have "elem (?A'\<lparr>data := mem''\<rparr>) r c = elem ?A' r c"
      unfolding el' [OF that] el [OF that] el [OF that(2,1)]
      by (cases "r = c") (auto simp: in_triangle_def)
    then show ?thesis by simp
  qed
  then have "mem'' = mem'" by (rule cells_determine_buffer [OF assms(3) len' len])
  then have "cuda_copy_triang ?A' upper = Inr ?A'" using r' by simp
  then show "\<exists>A'. cuda_copy_triang A upper = Inr A' \<and> cuda_copy_triang A' upper = Inr A'"
    using r by blast
  show "cuda_copy_triang zeros_46341 True = Inl (KernelUndefined, zeros_46341)"
    by (rule cuda_copy_triang_46341_upper)
qed

theorem mirror_triangle_idempotent_up_to_46340_witness:
  "is_cuda ones_3x3 \<and> dispatch_floating_types (scalar_type ones_3x3) \<and> square_matrix ones_3x3 3
   \<and> (3 :: nat) * 3 \<le> 2 ^ 31
   \<and> (\<exists>A'. cuda_copy_triang ones_3x3 False = Inr A' \<and> cuda_copy_triang A' False = Inr A')"
proof -
  have h: "is_cuda ones_3x3" "dispatch_floating_types (scalar_type ones_3x3)"
    "square_matrix ones_3x3 3" "(3 :: nat) * 3 \<le> 2 ^ 31"
    by (simp_all add: ones_3x3_def dispatch_floating_types_def square_matrix_def)
  from mirror_triangle_idempotent_up_to_46340 [OF h, of False] h show ?thesis by simp
qed

end
